theory Spec2Isabelle
  imports Complex_Main
begin

section \<open>The field tree of \<^verbatim>\<open>Schemabuilder.jsx\<close>\<close>

text \<open>
  A field is the object literal \<^verbatim>\<open>{ id, keyName, type, children }\<close>.  The source keeps
  \<^verbatim>\<open>type\<close> as a string and compares it with the literals \<^verbatim>\<open>"string"\<close>,
  \<^verbatim>\<open>"number"\<close> and \<^verbatim>\<open>"nested"\<close>, so the model keeps a string as well: every other
  string is an unrecognised type.  \<^verbatim>\<open>id\<close> is a JavaScript number; the only operations on
  it are \<^verbatim>\<open>===\<close> and the one addition in \<^verbatim>\<open>createDefaultField\<close>.
\<close>

datatype field = Field (fid: real) (keyName: string) (ftype: string) (children: "field list")

text \<open>All nodes of a field and of a forest, parents before children.\<close>

fun nodes :: "field \<Rightarrow> field list" where
  "nodes (Field i k t cs) = Field i k t cs # concat (map nodes cs)"

definition forest_nodes :: "field list \<Rightarrow> field list" where
  "forest_nodes fields = concat (map nodes fields)"

definition forest_ids :: "field list \<Rightarrow> real list" where
  "forest_ids fields = map fid (forest_nodes fields)"

subsection \<open>The addition of two numbers\<close>

text \<open>
  A JavaScript number is an IEEE 754 double, and \<^verbatim>\<open>a + b\<close> is the exact sum rounded to the
  nearest double, to the one with the even significand where two are equally near.  Around
  \<open>x\<close> the doubles lie \<open>double_ulp x\<close> apart: \<open>2\<^sup>e\<^sup>-\<^sup>5\<^sup>2\<close> for \<open>2\<^sup>e \<le> \<bar>x\<bar> < 2\<^sup>e\<^sup>+\<^sup>1\<close>, and
  \<open>2\<^sup>-\<^sup>1\<^sup>0\<^sup>7\<^sup>4\<close> below \<open>2\<^sup>-\<^sup>1\<^sup>0\<^sup>2\<^sup>2\<close>.  The doubles are taken as the reals they denote; a sum
  of magnitude \<open>2\<^sup>1\<^sup>0\<^sup>2\<^sup>4\<close> or more, which the engine gives as \<^verbatim>\<open>Infinity\<close>, has no such
  real and is outside this model (the one sum of the source is a clock reading plus a
  number below one).
\<close>

definition round_half_even :: "real \<Rightarrow> int" where
  "round_half_even m =
     (let f = \<lfloor>m\<rfloor>; d = m - of_int f
      in if d < 1/2 then f else if 1/2 < d then f + 1 else if even f then f else f + 1)"

definition double_ulp :: "real \<Rightarrow> real" where
  "double_ulp x = 2 powr (of_int (max \<lfloor>log 2 \<bar>x\<bar>\<rfloor> (- 1022)) - 52)"

definition double_round :: "real \<Rightarrow> real" where
  "double_round x =
     (if x = 0 then 0 else of_int (round_half_even (x / double_ulp x)) * double_ulp x)"

subsection \<open>\<^verbatim>\<open>createDefaultField\<close> (lines 10-15)\<close>

text \<open>
  \<^verbatim>\<open>Date.now()\<close> and \<^verbatim>\<open>Math.random()\<close> read the environment; the model takes the two
  readings as arguments: \<open>now\<close> is the clock, a whole number of milliseconds, and \<open>rnd\<close> the
  random draw, a double from 0 up to but not including 1.  The id is their sum as the
  engine computes it.
\<close>

definition createDefaultField :: "int \<Rightarrow> real \<Rightarrow> field" where
  "createDefaultField now rnd = Field (double_round (of_int now + rnd)) '''' ''string'' []"

subsection \<open>The state of \<^verbatim>\<open>SchemaBuilder\<close> and its three operations (lines 116-138)\<close>

definition initialFields :: "field list" where
  "initialFields =
     [Field 1 ''user'' ''nested''
        [Field 2 ''name'' ''string'' [],
         Field 3 ''age'' ''number'' [],
         Field 4 ''address'' ''nested''
           [Field 5 ''street'' ''string'' [],
            Field 6 ''zip'' ''number'' []]],
      Field 7 ''productId'' ''string'' []]"

definition addField :: "field list \<Rightarrow> int \<Rightarrow> real \<Rightarrow> field list" where
  "addField fields now rnd = fields @ [createDefaultField now rnd]"

definition updateField :: "field list \<Rightarrow> field \<Rightarrow> field list" where
  "updateField fields updatedField =
     map (\<lambda>f. if fid f = fid updatedField then updatedField else f) fields"

definition removeField :: "field list \<Rightarrow> real \<Rightarrow> field list" where
  "removeField fields fieldId = filter (\<lambda>f. fid f \<noteq> fieldId) fields"

subsection \<open>The callbacks of \<^verbatim>\<open>FieldRow\<close> (lines 43-67)\<close>

text \<open>
  A row receives its field and the callback \<^verbatim>\<open>onUpdate\<close> of whoever rendered it: for a
  root row that is \<^verbatim>\<open>updateField\<close>, for a child row the \<^verbatim>\<open>handleChildUpdate\<close> of the
  parent row.  The callback is a parameter of the model, as it is a prop of the component.
\<close>

definition addChildField :: "field \<Rightarrow> (field \<Rightarrow> 'r) \<Rightarrow> int \<Rightarrow> real \<Rightarrow> 'r" where
  "addChildField field onUpdate now rnd =
     onUpdate (Field (fid field) (keyName field) (ftype field)
                 (children field @ [createDefaultField now rnd]))"

definition handleChildUpdate :: "field \<Rightarrow> (field \<Rightarrow> 'r) \<Rightarrow> field \<Rightarrow> 'r" where
  "handleChildUpdate field onUpdate updatedChild =
     onUpdate (Field (fid field) (keyName field) (ftype field)
                 (map (\<lambda>child. if fid child = fid updatedChild then updatedChild else child)
                    (children field)))"

definition handleChildRemove :: "field \<Rightarrow> (field \<Rightarrow> 'r) \<Rightarrow> real \<Rightarrow> 'r" where
  "handleChildRemove field onUpdate childId =
     onUpdate (Field (fid field) (keyName field) (ftype field)
                 (filter (\<lambda>child. fid child \<noteq> childId) (children field)))"

section \<open>The projection \<^verbatim>\<open>generateSchema\<close> (lines 18-37)\<close>

subsection \<open>The object being built\<close>

text \<open>
  The result is a plain object whose values are the string placeholder, the number \<^verbatim>\<open>0\<close>
  or another such object.  An object is modelled by its own properties in the order in
  which \<^verbatim>\<open>JSON.stringify\<close> (line 187) and every other enumeration lists them.
\<close>

datatype json = JString string | JNumber int | JObject "(string \<times> json) list"

text \<open>
  JavaScript lists the own keys that are array indices first, in ascending numeric order,
  and the other string keys after them in the order of their creation.  An array index
  is the canonical decimal string of an integer from \<open>0\<close> to \<open>2\<^sup>3\<^sup>2 - 2\<close>.
\<close>

definition is_digit :: "char \<Rightarrow> bool" where
  "is_digit c = (c \<in> set ''0123456789'')"

definition digit_val :: "char \<Rightarrow> nat" where
  "digit_val c = of_char c - 48"

definition decimal_val :: "string \<Rightarrow> nat" where
  "decimal_val s = foldl (\<lambda>n c. 10 * n + digit_val c) 0 s"

definition array_index :: "string \<Rightarrow> nat option" where
  "array_index k =
     (if k \<noteq> [] \<and> list_all is_digit k \<and> (k = ''0'' \<or> hd k \<noteq> CHR ''0'')
         \<and> decimal_val k < 2 ^ 32 - 1
      then Some (decimal_val k) else None)"

text \<open>Whether an existing key \<open>k'\<close> stays in front of a new array-index key of value \<open>n\<close>.\<close>

definition index_below :: "nat \<Rightarrow> string \<times> 'v \<Rightarrow> bool" where
  "index_below n p = (case array_index (fst p) of Some m \<Rightarrow> m < n | None \<Rightarrow> False)"

text \<open>
  The assignment \<^verbatim>\<open>schema[k] = v\<close> on an object created by \<^verbatim>\<open>{}\<close>:
  \<^item> the key \<^verbatim>\<open>__proto__\<close> is an accessor inherited from \<^verbatim>\<open>Object.prototype\<close>; its
    setter changes the prototype when \<open>v\<close> is an object and does nothing otherwise, and
    in neither case creates an own property.  The prototype is not a property of the
    object and \<^verbatim>\<open>JSON.stringify\<close> does not print it, so the own properties stay as
    they are;
  \<^item> an existing own key keeps its place and gets the new value;
  \<^item> a new key is created: an array index at its numeric place among the array
    indices, any other key at the end.
\<close>

definition js_assign :: "(string \<times> 'v) list \<Rightarrow> string \<Rightarrow> 'v \<Rightarrow> (string \<times> 'v) list" where
  "js_assign schema k v =
     (if k = ''__proto__'' then schema
      else if k \<in> set (map fst schema)
        then map (\<lambda>p. if fst p = k then (k, v) else p) schema
      else case array_index k of
             None \<Rightarrow> schema @ [(k, v)]
           | Some n \<Rightarrow> takeWhile (index_below n) schema @ [(k, v)]
                        @ dropWhile (index_below n) schema)"

subsection \<open>The function\<close>

text \<open>
  \<open>forEach_field\<close> is the \<^verbatim>\<open>fields.forEach\<close> loop: it threads the object \<^verbatim>\<open>schema\<close>
  through the callback, field by field; \<open>i\<close>, \<open>k\<close>, \<open>t\<close> and \<open>cs\<close> are \<^verbatim>\<open>field.id\<close>,
  \<^verbatim>\<open>field.keyName\<close>, \<^verbatim>\<open>field.type\<close> and \<^verbatim>\<open>field.children\<close>.  The guard
  \<^verbatim>\<open>!field.keyName\<close> is true of the empty string only (\<^verbatim>\<open>keyName\<close> is always a string:
  the initial literals and \<^verbatim>\<open>e.target.value\<close>).  The \<^verbatim>\<open>switch\<close> compares with \<^verbatim>\<open>===\<close>.
\<close>

fun generateSchema :: "field list \<Rightarrow> json"
  and forEach_field :: "field list \<Rightarrow> (string \<times> json) list \<Rightarrow> (string \<times> json) list" where
  "generateSchema fields = JObject (forEach_field fields [])"
| "forEach_field [] schema = schema"
| "forEach_field (Field i k t cs # rest) schema =
     forEach_field rest
       (if k = '''' then schema
        else if t = ''string'' then js_assign schema k (JString ''String (default)'')
        else if t = ''number'' then js_assign schema k (JNumber 0)
        else if t = ''nested'' then js_assign schema k (generateSchema cs)
        else schema)"

section \<open>Objects by reference\<close>

text \<open>
  The definitions above take a field and a projected object as values.  Two properties of
  the source are about object identity: which objects an update allocates anew, and
  whether \<^verbatim>\<open>generateSchema\<close> writes to an object it was given.  For them the objects live
  in a heap: a list of cells, a reference being an index into it.  Allocation appends a
  cell; nothing is ever freed.  Arrays are never written to after their creation in the
  source (\<^verbatim>\<open>map\<close>, \<^verbatim>\<open>filter\<close> and the spread build new ones), so an array is the list of
  its elements.
\<close>

type_synonym ref = nat

datatype jsval = VString string | VNumber int | VRef ref

datatype cell =
    FieldObj real string string "ref list"
  | SchemaObj "(string \<times> jsval) list"

type_synonym heap = "cell list"

definition deref :: "heap \<Rightarrow> ref \<Rightarrow> cell option" where
  "deref h r = (if r < length h then Some (h ! r) else None)"

text \<open>\<^verbatim>\<open>f.id\<close>; \<open>None\<close> where the reference is no field object.\<close>

definition id_of :: "heap \<Rightarrow> ref \<Rightarrow> real option" where
  "id_of h r = (case deref h r of Some (FieldObj i k t cs) \<Rightarrow> Some i | _ \<Rightarrow> None)"

subsection \<open>The tree operations on references\<close>

text \<open>
  \<^verbatim>\<open>xs.map(x => x.id === u.id ? u : x)\<close>, the body of both \<^verbatim>\<open>updateField\<close> and
  \<^verbatim>\<open>handleChildUpdate\<close>: the result holds the reference \<open>u\<close> where the ids agree and
  the very reference it found elsewhere.
\<close>

fun replace_by_id :: "heap \<Rightarrow> ref \<Rightarrow> ref list \<Rightarrow> ref list option" where
  "replace_by_id h u [] = Some []"
| "replace_by_id h u (x # xs) =
     (case (id_of h x, id_of h u, replace_by_id h u xs) of
        (Some i, Some j, Some ys) \<Rightarrow> Some ((if i = j then u else x) # ys)
      | _ \<Rightarrow> None)"

definition updateField_h :: "heap \<Rightarrow> ref list \<Rightarrow> ref \<Rightarrow> ref list option" where
  "updateField_h h fields updatedField = replace_by_id h updatedField fields"

text \<open>
  \<^verbatim>\<open>handleChildUpdate\<close> of the row of \<open>field\<close>: the object literal
  \<^verbatim>\<open>{ ...field, children: newChildren }\<close> is a new object, allocated at the end of the
  heap, and \<^verbatim>\<open>onUpdate\<close> receives its reference.
\<close>

definition handleChildUpdate_h ::
    "heap \<Rightarrow> ref \<Rightarrow> (heap \<Rightarrow> ref \<Rightarrow> 'r option) \<Rightarrow> ref \<Rightarrow> 'r option" where
  "handleChildUpdate_h h field onUpdate updatedChild =
     (case deref h field of
        Some (FieldObj i k t cs) \<Rightarrow>
          (case replace_by_id h updatedChild cs of
             Some newChildren \<Rightarrow> onUpdate (h @ [FieldObj i k t newChildren]) (length h)
           | None \<Rightarrow> None)
      | _ \<Rightarrow> None)"

text \<open>
  \<^verbatim>\<open>handleUpdate\<close> of a row (lines 45-47): \<^verbatim>\<open>{ ...field, ...change }\<close>, where the change
  is \<^verbatim>\<open>{ keyName }\<close> from the input or \<^verbatim>\<open>{ type }\<close> from the select.
\<close>

datatype change = SetKeyName string | SetType string

definition handleUpdate_h ::
    "heap \<Rightarrow> ref \<Rightarrow> (heap \<Rightarrow> ref \<Rightarrow> 'r option) \<Rightarrow> change \<Rightarrow> 'r option" where
  "handleUpdate_h h field onUpdate c =
     (case deref h field of
        Some (FieldObj i k t cs) \<Rightarrow>
          onUpdate (h @ [case c of SetKeyName k' \<Rightarrow> FieldObj i k' t cs
                                 | SetType t' \<Rightarrow> FieldObj i k t' cs]) (length h)
      | _ \<Rightarrow> None)"

text \<open>
  The rows as \<^verbatim>\<open>SchemaBuilder\<close> and \<^verbatim>\<open>FieldRow\<close> wire them (lines 95-101 and 163-169)
  for a child \<open>x\<close> of a root field \<open>a\<close>: the row of \<open>x\<close> reports to the
  \<^verbatim>\<open>handleChildUpdate\<close> of the row of \<open>a\<close>, which reports to \<^verbatim>\<open>updateField\<close>.  The
  result is the heap and the new root sequence given to \<^verbatim>\<open>setFields\<close>.
\<close>

definition edit_child ::
    "heap \<Rightarrow> ref list \<Rightarrow> ref \<Rightarrow> ref \<Rightarrow> change \<Rightarrow> (heap \<times> ref list) option" where
  "edit_child h fields a x c =
     handleUpdate_h h x
       (\<lambda>h1 x'. handleChildUpdate_h h1 a
          (\<lambda>h2 a'. map_option (Pair h2) (updateField_h h2 fields a')) x') c"

subsection \<open>\<^verbatim>\<open>generateSchema\<close> on references\<close>

text \<open>\<^verbatim>\<open>schema[k] = v\<close> where \<open>schema\<close> refers to an object under construction.\<close>

definition assign_h :: "heap \<Rightarrow> ref \<Rightarrow> string \<Rightarrow> jsval \<Rightarrow> heap" where
  "assign_h h schema k v =
     (case deref h schema of
        Some (SchemaObj props) \<Rightarrow> h[schema := SchemaObj (js_assign props k v)]
      | _ \<Rightarrow> h)"

text \<open>
  The first argument bounds the depth of the calls of \<^verbatim>\<open>generateSchema\<close> within one
  another: the call stack of the engine is finite, and a heap may hold a field that is
  its own descendant.  The result is \<open>None\<close> when the bound is reached or a reference is
  no field object (where the source would read a property of \<^verbatim>\<open>undefined\<close>).
  \<^verbatim>\<open>const schema = {}\<close> allocates the object; the loop writes to it by reference.
\<close>

fun generateSchema_h :: "nat \<Rightarrow> heap \<Rightarrow> ref list \<Rightarrow> (ref \<times> heap) option"
  and forEach_h :: "nat \<Rightarrow> ref list \<Rightarrow> ref \<Rightarrow> heap \<Rightarrow> heap option" where
  "generateSchema_h 0 h fields = None"
| "generateSchema_h (Suc n) h fields =
     (case forEach_h n fields (length h) (h @ [SchemaObj []]) of
        None \<Rightarrow> None
      | Some h' \<Rightarrow> Some (length h, h'))"
| "forEach_h n [] schema h = Some h"
| "forEach_h n (f # rest) schema h =
     (case deref h f of
        Some (FieldObj i k t cs) \<Rightarrow>
          if k = '''' then forEach_h n rest schema h
          else if t = ''string''
            then forEach_h n rest schema (assign_h h schema k (VString ''String (default)''))
          else if t = ''number''
            then forEach_h n rest schema (assign_h h schema k (VNumber 0))
          else if t = ''nested''
            then (case generateSchema_h n h cs of
                    None \<Rightarrow> None
                  | Some (r, h1) \<Rightarrow> forEach_h n rest schema (assign_h h1 schema k (VRef r)))
          else forEach_h n rest schema h
      | _ \<Rightarrow> None)"

subsection \<open>What a heap represents\<close>

text \<open>
  \<open>field_at h r f\<close>: the reference \<open>r\<close> is, in \<open>h\<close>, the root of a copy of the tree
  \<open>f\<close>.  \<open>json_at h lo v j\<close>: the value \<open>v\<close> is, in \<open>h\<close>, the JSON value \<open>j\<close>, and every
  object of it lies at \<open>lo\<close> or above.
\<close>

fun field_at :: "heap \<Rightarrow> ref \<Rightarrow> field \<Rightarrow> bool"
  and fields_at :: "heap \<Rightarrow> ref list \<Rightarrow> field list \<Rightarrow> bool" where
  "field_at h r (Field i k t fs) =
     (case deref h r of
        Some (FieldObj i' k' t' cs) \<Rightarrow> i' = i \<and> k' = k \<and> t' = t \<and> fields_at h cs fs
      | _ \<Rightarrow> False)"
| "fields_at h [] [] = True"
| "fields_at h (r # rs) (f # fs) = (field_at h r f \<and> fields_at h rs fs)"
| "fields_at h [] (f # fs) = False"
| "fields_at h (r # rs) [] = False"

fun json_at :: "heap \<Rightarrow> ref \<Rightarrow> jsval \<Rightarrow> json \<Rightarrow> bool"
  and props_at :: "heap \<Rightarrow> ref \<Rightarrow> (string \<times> jsval) list \<Rightarrow> (string \<times> json) list \<Rightarrow> bool" where
  "json_at h lo v (JString s) = (v = VString s)"
| "json_at h lo v (JNumber n) = (v = VNumber n)"
| "json_at h lo v (JObject jps) =
     (case v of
        VRef r \<Rightarrow> lo \<le> r \<and>
          (case deref h r of Some (SchemaObj ps) \<Rightarrow> props_at h lo ps jps | _ \<Rightarrow> False)
      | _ \<Rightarrow> False)"
| "props_at h lo [] [] = True"
| "props_at h lo (p # ps) ((k, j) # jps) =
     (fst p = k \<and> json_at h lo (snd p) j \<and> props_at h lo ps jps)"
| "props_at h lo [] (jp # jps) = False"
| "props_at h lo (p # ps) [] = False"

text \<open>The depth of the nesting of a tree: a bound on the calls within one another.\<close>

fun height :: "field \<Rightarrow> nat"
  and forest_height :: "field list \<Rightarrow> nat" where
  "height (Field i k t cs) = Suc (forest_height cs)"
| "forest_height [] = 0"
| "forest_height (f # fs) = max (height f) (forest_height fs)"

section \<open>Vocabulary of the properties\<close>

text \<open>
  The keys of a projected object, in the order of their listing, and the fields of a
  sequence that reach an assignment other than the one to \<^verbatim>\<open>__proto__\<close>.
\<close>

fun object_props :: "json \<Rightarrow> (string \<times> json) list" where
  "object_props (JObject props) = props"
| "object_props (JString s) = []"
| "object_props (JNumber n) = []"

definition object_keys :: "json \<Rightarrow> string list" where
  "object_keys j = map fst (object_props j)"

definition recognised :: "string \<Rightarrow> bool" where
  "recognised t = (t = ''string'' \<or> t = ''number'' \<or> t = ''nested'')"

definition assigns :: "field \<Rightarrow> bool" where
  "assigns f = (keyName f \<noteq> '''' \<and> keyName f \<noteq> ''__proto__'' \<and> recognised (ftype f))"

definition assigned_keys :: "field list \<Rightarrow> string list" where
  "assigned_keys fields = map keyName (filter assigns fields)"

text \<open>The value that a field of a recognised type assigns.\<close>

definition assigned_value :: "field \<Rightarrow> json" where
  "assigned_value f =
     (if ftype f = ''string'' then JString ''String (default)''
      else if ftype f = ''number'' then JNumber 0
      else generateSchema (children f))"

text \<open>
  A heap for the tree of two roots \<^verbatim>\<open>A\<close> (nested, with the child \<^verbatim>\<open>X\<close>) and \<^verbatim>\<open>B\<close>:
  \<^verbatim>\<open>A\<close> at reference 0, \<^verbatim>\<open>X\<close> at 1, \<^verbatim>\<open>B\<close> at 2.
\<close>

definition heap_A_X_B :: heap where
  "heap_A_X_B =
     [FieldObj 1 ''A'' ''nested'' [1], FieldObj 2 ''X'' ''string'' [], FieldObj 3 ''B'' ''string'' []]"

definition tree_A_X_B :: "field list" where
  "tree_A_X_B = [Field 1 ''A'' ''nested'' [Field 2 ''X'' ''string'' []], Field 3 ''B'' ''string'' []]"

text \<open>
  The state of a call of \<^verbatim>\<open>generateSchema\<close> in its loop: \<open>h0\<close> is the heap at the call,
  \<open>h\<close> the heap now.  The cells of \<open>h0\<close> are as they were; the object \<^verbatim>\<open>schema\<close>, which
  the call allocated at \<open>length h0\<close>, holds the properties \<open>jps\<close>, and the objects they
  refer to lie above it.
\<close>

definition building :: "heap \<Rightarrow> heap \<Rightarrow> (string \<times> json) list \<Rightarrow> bool" where
  "building h0 h jps =
     (take (length h0) h = h0 \<and>
      (case deref h (length h0) of
         Some (SchemaObj ps) \<Rightarrow> props_at h (Suc (length h0)) ps jps
       | _ \<Rightarrow> False))"

subsection \<open>The rows of the editor\<close>

text \<open>
  \<^verbatim>\<open>FieldRow\<close> renders a row for every child of a field of type \<^verbatim>\<open>"nested"\<close> (lines
  93-102) and gives it \<^verbatim>\<open>handleChildUpdate\<close> as its \<^verbatim>\<open>onUpdate\<close>.  A path is the list of
  the child positions from a field down to one of its descendants; \<open>row_onUpdate\<close> is the
  \<^verbatim>\<open>onUpdate\<close> of the row at the path, given the \<^verbatim>\<open>onUpdate\<close> of the row of the field
  itself, and \<open>None\<close> where no such row is rendered.  The row of a root field has
  \<^verbatim>\<open>updateField\<close> as its \<^verbatim>\<open>onUpdate\<close> (lines 163-169).
\<close>

fun row_onUpdate :: "(field \<Rightarrow> 'r) \<Rightarrow> field \<Rightarrow> nat list \<Rightarrow> (field \<Rightarrow> 'r) option" where
  "row_onUpdate onUpdate field [] = Some onUpdate"
| "row_onUpdate onUpdate field (j # path) =
     (if ftype field = ''nested'' \<and> j < length (children field)
      then row_onUpdate (handleChildUpdate field onUpdate) (children field ! j) path
      else None)"

text \<open>The node at a path, and the field with the node at a path replaced.\<close>

fun node_at :: "field \<Rightarrow> nat list \<Rightarrow> field" where
  "node_at f [] = f"
| "node_at f (j # path) = node_at (children f ! j) path"

fun replace_at :: "field \<Rightarrow> nat list \<Rightarrow> field \<Rightarrow> field" where
  "replace_at f [] u = u"
| "replace_at f (j # path) u =
     Field (fid f) (keyName f) (ftype f)
       ((children f)[j := replace_at (children f ! j) path u])"

text \<open>
  A heap for three roots: \<^verbatim>\<open>a\<close> (nested, with the child \<^verbatim>\<open>n\<close>), \<^verbatim>\<open>flag\<close> of the type
  \<^verbatim>\<open>"boolean"\<close>, which is none of the three types of the source, with a child \<^verbatim>\<open>x\<close>, and
  \<^verbatim>\<open>b\<close>.
\<close>

definition heap_a_flag_b :: heap where
  "heap_a_flag_b =
     [FieldObj 1 ''a'' ''nested'' [1], FieldObj 2 ''n'' ''number'' [],
      FieldObj 3 ''flag'' ''boolean'' [3], FieldObj 4 ''x'' ''string'' [],
      FieldObj 5 ''b'' ''string'' []]"

text \<open>
  A heap for two roots \<^verbatim>\<open>A\<close> and \<^verbatim>\<open>B\<close>, where \<^verbatim>\<open>A\<close> has the children \<^verbatim>\<open>X\<close> and \<^verbatim>\<open>Z\<close>:
  \<^verbatim>\<open>A\<close> at reference 0, \<^verbatim>\<open>X\<close> at 1, \<^verbatim>\<open>Z\<close> at 2, \<^verbatim>\<open>B\<close> at 3; the ids are 1, 2, 4, 3.
\<close>

definition heap_A_XZ_B :: heap where
  "heap_A_XZ_B =
     [FieldObj 1 ''A'' ''nested'' [1, 2], FieldObj 2 ''X'' ''string'' [],
      FieldObj 4 ''Z'' ''number'' [], FieldObj 3 ''B'' ''string'' []]"

section \<open>Properties of the tree operations\<close>

subsection \<open>\<^verbatim>\<open>updateField\<close>\<close>

lemma updateField_length: "length (updateField fields u) = length fields"
  by (simp add: updateField_def)

lemma updateField_nth:
  "i < length fields \<Longrightarrow>
   updateField fields u ! i = (if fid (fields ! i) = fid u then u else fields ! i)"
  by (simp add: updateField_def)

lemma updateField_absent:
  "fid u \<notin> set (map fid fields) \<Longrightarrow> updateField fields u = fields"
  by (induction fields) (auto simp: updateField_def)

text \<open>
  C1, as stated, at the initial tree: the id \<open>2\<close> is the id of the node \<^verbatim>\<open>name\<close> below
  \<^verbatim>\<open>user\<close>, but \<^verbatim>\<open>updateField\<close> called with a field of id \<open>2\<close> returns the tree as
  it was, and the new field is nowhere in it.  \<^verbatim>\<open>updateField\<close> maps over the root
  sequence only.
\<close>

theorem updateField_nested_counterexample:
  "2 \<in> set (forest_ids initialFields)
   \<and> updateField initialFields (Field 2 ''fullName'' ''string'' []) = initialFields
   \<and> Field 2 ''fullName'' ''string'' []
        \<notin> set (forest_nodes (updateField initialFields (Field 2 ''fullName'' ''string'' [])))"
  by (simp add: forest_ids_def forest_nodes_def initialFields_def updateField_def)

text \<open>
  C1, amended: for every tree and every field \<open>u\<close>, \<^verbatim>\<open>updateField(u)\<close> returns a root
  sequence of the same length (the empty one for the empty tree); at every root position
  it has \<open>u\<close> if the root node there has the id of \<open>u\<close> and otherwise the node that was
  there, with its whole subtree; when no root node has the id of \<open>u\<close> the tree is
  unchanged, also when a nested node has that id.
\<close>

theorem updateField_root_level:
  "length (updateField fields u) = length fields
   \<and> (\<forall>i < length fields.
         updateField fields u ! i = (if fid (fields ! i) = fid u then u else fields ! i))
   \<and> (fid u \<notin> set (map fid fields) \<longrightarrow> updateField fields u = fields)"
  using updateField_length [of fields u] updateField_nth [of _ fields u]
    updateField_absent [of u fields]
  by blast

theorem updateField_root_level_witness:
  "updateField [] (Field 7 ''sku'' ''number'' []) = []
   \<and> length (updateField initialFields (Field 7 ''sku'' ''number'' [])) = 2
   \<and> updateField initialFields (Field 7 ''sku'' ''number'' []) ! 1 = Field 7 ''sku'' ''number'' []
   \<and> updateField initialFields (Field 7 ''sku'' ''number'' []) ! 0 = initialFields ! 0
   \<and> 2 \<notin> set (map fid initialFields)
   \<and> updateField initialFields (Field 2 ''fullName'' ''string'' []) = initialFields"
proof -
  have l: "length initialFields = 2" "0 < length initialFields" "1 < length initialFields"
    by (simp_all add: initialFields_def)
  have a: "2 \<notin> set (map fid initialFields)"
    by (simp add: initialFields_def)
  have "length (updateField [] (Field 7 ''sku'' ''number'' [])) = length ([] :: field list)"
    using updateField_root_level [of "[]" "Field 7 ''sku'' ''number'' []"] by blast
  then have e: "updateField [] (Field 7 ''sku'' ''number'' []) = []"
    by simp
  note t = updateField_root_level [of initialFields "Field 7 ''sku'' ''number'' []"]
  have n: "length (updateField initialFields (Field 7 ''sku'' ''number'' [])) = 2"
    using t l(1) by simp
  have "updateField initialFields (Field 7 ''sku'' ''number'' []) ! 1
        = (if fid (initialFields ! 1) = fid (Field 7 ''sku'' ''number'' [])
           then Field 7 ''sku'' ''number'' [] else initialFields ! 1)"
    using t l(3) by blast
  then have p1: "updateField initialFields (Field 7 ''sku'' ''number'' []) ! 1
        = Field 7 ''sku'' ''number'' []"
    by (simp add: initialFields_def)
  have "updateField initialFields (Field 7 ''sku'' ''number'' []) ! 0
        = (if fid (initialFields ! 0) = fid (Field 7 ''sku'' ''number'' [])
           then Field 7 ''sku'' ''number'' [] else initialFields ! 0)"
    using t l(2) by blast
  then have p0: "updateField initialFields (Field 7 ''sku'' ''number'' []) ! 0 = initialFields ! 0"
    by (simp add: initialFields_def)
  have u: "updateField initialFields (Field 2 ''fullName'' ''string'' []) = initialFields"
    using updateField_root_level [of initialFields "Field 2 ''fullName'' ''string'' []"] a
    by simp
  from e n p1 p0 a u show ?thesis by blast
qed

subsection \<open>\<^verbatim>\<open>removeField\<close>\<close>

lemma forest_ids_Cons: "forest_ids (f # fs) = map fid (nodes f) @ forest_ids fs"
  by (simp add: forest_ids_def forest_nodes_def)

lemma forest_ids_append: "forest_ids (xs @ ys) = forest_ids xs @ forest_ids ys"
  by (simp add: forest_ids_def forest_nodes_def)

lemma fid_in_nodes: "fid f \<in> set (map fid (nodes f))"
  by (cases f) simp

lemma root_ids_in_forest_ids: "set (map fid fields) \<subseteq> set (forest_ids fields)"
proof (induction fields)
  case Nil
  show ?case by simp
next
  case (Cons f fs)
  have "fid f \<in> set (forest_ids (f # fs))"
    using fid_in_nodes [of f] by (simp add: forest_ids_Cons)
  moreover have "set (map fid fs) \<subseteq> set (forest_ids (f # fs))"
    using Cons.IH by (auto simp: forest_ids_Cons)
  ultimately show ?case by simp
qed

lemma removeField_absent:
  "fieldId \<notin> set (map fid fields) \<Longrightarrow> removeField fields fieldId = fields"
  by (induction fields) (auto simp: removeField_def)

lemma removeField_append:
  "removeField (xs @ ys) fieldId = removeField xs fieldId @ removeField ys fieldId"
  by (simp add: removeField_def)

lemma removeField_unique_root:
  assumes "distinct (forest_ids (pre @ r # post))"
  shows "removeField (pre @ r # post) (fid r) = pre @ post"
proof -
  have d: "set (forest_ids pre) \<inter> set (map fid (nodes r)) = {}"
          "set (map fid (nodes r)) \<inter> set (forest_ids post) = {}"
    using assms by (auto simp: forest_ids_append forest_ids_Cons)
  have "fid r \<notin> set (forest_ids pre)" "fid r \<notin> set (forest_ids post)"
    using d fid_in_nodes [of r] by blast+
  then have "fid r \<notin> set (map fid pre)" "fid r \<notin> set (map fid post)"
    using root_ids_in_forest_ids by blast+
  then have "removeField pre (fid r) = pre" "removeField post (fid r) = post"
    by (simp_all add: removeField_absent)
  moreover have "removeField [r] (fid r) = []"
    by (simp add: removeField_def)
  ultimately show ?thesis
    using removeField_append [of pre "[r] @ post" "fid r"] removeField_append [of "[r]" post "fid r"]
    by simp
qed

lemma subtree_ids_gone:
  assumes "distinct (forest_ids (pre @ r # post))"
  shows "set (forest_ids (pre @ post)) \<inter> set (map fid (nodes r)) = {}"
  using assms by (auto simp: forest_ids_append forest_ids_Cons)

text \<open>
  C2, as stated, at the initial tree: the node of id \<open>2\<close> exists (below \<^verbatim>\<open>user\<close>), and
  \<^verbatim>\<open>removeField(2)\<close> leaves the tree as it was, so the node is still there.
  \<^verbatim>\<open>removeField\<close> filters the root sequence only.
\<close>

theorem removeField_nested_counterexample:
  "2 \<in> set (forest_ids initialFields)
   \<and> removeField initialFields 2 = initialFields
   \<and> 2 \<in> set (forest_ids (removeField initialFields 2))"
  by (simp add: forest_ids_def forest_nodes_def initialFields_def removeField_def)

lemma removeField_Cons:
  "removeField (r # post) fieldId
   = (if fid r = fieldId then [] else [r]) @ removeField post fieldId"
  by (simp add: removeField_def)

lemma removeField_no_match: "fieldId \<notin> set (map fid (removeField fields fieldId))"
  by (auto simp: removeField_def)

lemma removeField_unchanged_iff:
  "(removeField fields fieldId = fields) = (fieldId \<notin> set (map fid fields))"
  by (auto simp: removeField_def filter_id_conv)

lemma forest_nodes_append: "forest_nodes (xs @ ys) = forest_nodes xs @ forest_nodes ys"
  by (simp add: forest_nodes_def)

text \<open>
  C2, amended: for every tree and every id, \<^verbatim>\<open>removeField\<close> takes out of the root sequence
  every root node that has the id, each with its whole subtree, and keeps every other root
  node, as it was and in its place among the others.  No root node of the result has the
  id, and the nodes of the result are the nodes of the root nodes that stay: none of a
  removed subtree.  The tree is unchanged exactly when no root node has the id, so also when
  only nested nodes have it.
\<close>

theorem removeField_root_level:
  "removeField (pre @ r # post) fieldId
     = removeField pre fieldId @ (if fid r = fieldId then [] else [r]) @ removeField post fieldId
   \<and> removeField [] fieldId = []
   \<and> fieldId \<notin> set (map fid (removeField fields fieldId))
   \<and> (removeField fields fieldId = fields) = (fieldId \<notin> set (map fid fields))
   \<and> forest_nodes (removeField (pre @ r # post) (fid r))
       = forest_nodes (removeField pre (fid r)) @ forest_nodes (removeField post (fid r))"
proof -
  have s: "removeField (pre @ r # post) i
           = removeField pre i @ (if fid r = i then [] else [r]) @ removeField post i" for i
    using removeField_append [of pre "r # post" i] removeField_Cons [of r post i] by simp
  have "forest_nodes (removeField (pre @ r # post) (fid r))
        = forest_nodes (removeField pre (fid r)) @ forest_nodes (removeField post (fid r))"
    using s [of "fid r"] by (simp add: forest_nodes_append)
  moreover have "removeField [] fieldId = []"
    by (simp add: removeField_def)
  ultimately show ?thesis
    using s [of fieldId] removeField_no_match [of fieldId fields]
      removeField_unchanged_iff [of fields fieldId]
    by blast
qed

theorem removeField_root_level_witness:
  "removeField [Field 1 ''a'' ''string'' [], Field 2 ''b'' ''number'' [], Field 1 ''c'' ''string'' []] 1
     = [Field 2 ''b'' ''number'' []]
   \<and> 4 \<notin> set (map fid initialFields)
   \<and> removeField initialFields 4 = initialFields
   \<and> 1 \<notin> set (map fid (removeField initialFields 1))"
proof -
  define a where "a = Field 1 ''a'' ''string'' []"
  define b where "b = Field 2 ''b'' ''number'' []"
  define c where "c = Field 1 ''c'' ''string'' []"
  have ids: "fid a = 1" "fid b = 2" "fid c = 1"
    by (simp_all add: a_def b_def c_def)
  have e: "removeField [] (1::real) = []"
    using removeField_root_level [of "[]" a "[]" 1 "[]"] by blast
  have "removeField ([] @ c # []) 1 = removeField [] 1 @ (if fid c = 1 then [] else [c]) @ removeField [] 1"
    using removeField_root_level [of "[]" c "[]" 1 "[]"] by blast
  then have rc: "removeField [c] 1 = []"
    using e ids by simp
  have "removeField ([] @ b # [c]) 1 = removeField [] 1 @ (if fid b = 1 then [] else [b]) @ removeField [c] 1"
    using removeField_root_level [of "[]" b "[c]" 1 "[]"] by blast
  then have rb: "removeField [b, c] 1 = [b]"
    using e rc ids by simp
  have "removeField ([] @ a # [b, c]) 1
        = removeField [] 1 @ (if fid a = 1 then [] else [a]) @ removeField [b, c] 1"
    using removeField_root_level [of "[]" a "[b, c]" 1 "[]"] by blast
  then have ra: "removeField [a, b, c] 1 = [b]"
    using e rb ids by simp
  have n: "4 \<notin> set (map fid initialFields)"
    by (simp add: initialFields_def)
  have u: "removeField initialFields 4 = initialFields"
    using removeField_root_level [of "[]" a "[]" 4 initialFields] n by blast
  have g: "1 \<notin> set (map fid (removeField initialFields 1))"
    using removeField_root_level [of "[]" a "[]" 1 initialFields] by blast
  from ra n u g show ?thesis
    unfolding a_def b_def c_def by blast
qed

subsection \<open>The sum of a clock reading and a random draw\<close>

lemma round_half_even_bounds: "\<lfloor>m\<rfloor> \<le> round_half_even m \<and> round_half_even m \<le> \<lceil>m\<rceil>"
proof -
  have "m - of_int \<lfloor>m\<rfloor> > 0 \<Longrightarrow> \<lceil>m\<rceil> = \<lfloor>m\<rfloor> + 1"
    by (smt (verit) ceiling_altdef of_int_floor_cancel)
  then show ?thesis
    by (auto simp: round_half_even_def Let_def)
qed

lemma double_ulp_binade:
  assumes "2 ^ e \<le> x" and "x < 2 ^ Suc e"
  shows "double_ulp x = 2 ^ e / 2 ^ 52"
proof -
  have pos: "0 < x"
    using assms(1) by (smt (verit) zero_less_power)
  have "\<lfloor>log 2 x\<rfloor> = int e"
    using pos assms by (simp add: floor_log_eq_powr_iff powr_realpow powr_add)
  then have "double_ulp x = 2 powr (real e - 52)"
    using pos by (simp add: double_ulp_def)
  also have "\<dots> = 2 ^ e / 2 ^ 52"
    by (simp add: powr_diff powr_realpow)
  finally show ?thesis .
qed

text \<open>The rounding of a number whose binary exponent \<open>e\<close> is known, for calculation.\<close>

lemma double_round_binade:
  assumes "2 ^ e \<le> x" and "x < 2 ^ Suc e"
  shows "double_round x = of_int (round_half_even (x * 2 ^ 52 / 2 ^ e)) * 2 ^ e / 2 ^ 52"
proof -
  have "x \<noteq> 0"
    using assms(1) by (smt (verit) zero_less_power)
  then show ?thesis
    by (simp add: double_round_def double_ulp_binade [OF assms])
qed

text \<open>
  A clock reading of magnitude below \<open>2\<^sup>5\<^sup>3\<close> is a double, and so is the next whole number;
  the rounded sum with a draw from 0 to 1 lies between the two.  (The clock of the engine
  stays within \<open>8.64 \<times> 10\<^sup>1\<^sup>5\<close>, which is below \<open>2\<^sup>5\<^sup>3\<close>.)
\<close>

lemma double_round_clock_bounds:
  assumes "\<bar>now\<bar> < 2 ^ 53" and "0 \<le> rnd" and "rnd < 1"
  shows "of_int now \<le> double_round (of_int now + rnd)
       \<and> double_round (of_int now + rnd) \<le> of_int now + 1"
proof (cases "of_int now + rnd = (0::real)")
  case True
  then have "(of_int now :: real) \<le> 0" and "(-1 :: real) < of_int now"
    using assms(2,3) by linarith+
  then have "now \<le> 0" and "-1 < now"
    by simp_all
  then have "now = 0"
    by simp
  with True show ?thesis by (simp add: double_round_def)
next
  case False
  define x where "x = of_int now + rnd"
  define E where "E = max \<lfloor>log 2 \<bar>x\<bar>\<rfloor> (- 1022)"
  define k where "k = nat (52 - E)"
  have nz: "x \<noteq> 0"
    using False by (simp add: x_def)
  have "now + 1 \<le> 2 ^ 53" and "- (2 ^ 53) + 1 \<le> now"
    using assms(1) by simp_all
  then have "(of_int (now + 1) :: real) \<le> of_int (2 ^ 53)"
    and "(of_int (- (2 ^ 53) + 1) :: real) \<le> of_int now"
    by (simp_all only: of_int_le_iff)
  then have "of_int now + 1 \<le> (2 ^ 53 :: real)" and "- (2 ^ 53) + 1 \<le> (of_int now :: real)"
    by simp_all
  with assms(2,3) have lt: "\<bar>x\<bar> < 2 ^ 53"
    unfolding x_def by linarith
  have "log 2 \<bar>x\<bar> < 53"
    using nz lt by (simp add: log_less_iff powr_realpow)
  then have "\<lfloor>log 2 \<bar>x\<bar>\<rfloor> \<le> 52"
    by (simp add: floor_le_iff)
  then have E: "E \<le> 52"
    by (simp add: E_def)
  then have "of_int E - 52 = - real k"
    by (simp add: k_def)
  then have "double_ulp x = 2 powr (- real k)"
    by (simp add: double_ulp_def E_def [symmetric])
  also have "\<dots> = 1 / 2 ^ k"
    by (simp add: powr_minus powr_realpow inverse_eq_divide)
  finally have ulp: "double_ulp x = 1 / 2 ^ k" .
  define m where "m = x * 2 ^ k"
  have r: "double_round x = of_int (round_half_even m) / 2 ^ k"
    using nz by (simp add: double_round_def ulp m_def)
  have "of_int now * 2 ^ k \<le> m"
    using assms(2) by (simp add: m_def x_def)
  then have "of_int (now * 2 ^ k) \<le> m"
    by simp
  then have "now * 2 ^ k \<le> \<lfloor>m\<rfloor>"
    by (simp only: le_floor_iff)
  then have "now * 2 ^ k \<le> round_half_even m"
    using round_half_even_bounds [of m] by linarith
  then have "(of_int (now * 2 ^ k) :: real) \<le> of_int (round_half_even m)"
    by (simp only: of_int_le_iff)
  then have "of_int now * 2 ^ k \<le> (of_int (round_half_even m) :: real)"
    by simp
  then have lower: "of_int now \<le> double_round x"
    unfolding r by (simp add: pos_le_divide_eq)
  have "m \<le> (of_int now + 1) * 2 ^ k"
    using assms(3) by (simp add: m_def x_def)
  then have "m \<le> of_int ((now + 1) * 2 ^ k)"
    by simp
  then have "\<lceil>m\<rceil> \<le> (now + 1) * 2 ^ k"
    by (simp only: ceiling_le_iff)
  then have "round_half_even m \<le> (now + 1) * 2 ^ k"
    using round_half_even_bounds [of m] by linarith
  then have "(of_int (round_half_even m) :: real) \<le> of_int ((now + 1) * 2 ^ k)"
    by (simp only: of_int_le_iff)
  then have "(of_int (round_half_even m) :: real) \<le> (of_int now + 1) * 2 ^ k"
    by simp
  then have "double_round x \<le> of_int now + 1"
    unfolding r by (simp add: pos_divide_le_eq)
  with lower show ?thesis
    unfolding x_def by simp
qed

text \<open>
  Sums at clock readings of these years, where the doubles lie \<open>2\<^sup>-\<^sup>1\<^sup>2\<close> apart: a draw of
  \<open>2\<^sup>-\<^sup>2\<^sup>0\<close> is rounded away, a draw of one half is kept, and a draw just below one is rounded
  up to the next millisecond.
\<close>

lemma double_round_small: "double_round (1700000000000 + 1 / 2 ^ 20) = 1700000000000"
proof -
  have "double_round (1700000000000 + 1 / 2 ^ 20)
        = of_int (round_half_even ((1700000000000 + 1 / 2 ^ 20) * 2 ^ 52 / 2 ^ 40))
            * 2 ^ 40 / 2 ^ 52"
    by (rule double_round_binade) simp_all
  also have "(1700000000000 + 1 / 2 ^ 20) * 2 ^ 52 / 2 ^ 40
             = (6963200000000000 + 1 / 256 :: real)"
    by simp
  also have "round_half_even (6963200000000000 + 1 / 256) = 6963200000000000"
    by (simp add: round_half_even_def Let_def)
  finally show ?thesis by simp
qed

lemma double_round_half: "double_round (1700000000000 + 1 / 2) = 1700000000000 + 1 / 2"
proof -
  have "double_round (1700000000000 + 1 / 2)
        = of_int (round_half_even ((1700000000000 + 1 / 2) * 2 ^ 52 / 2 ^ 40)) * 2 ^ 40 / 2 ^ 52"
    by (rule double_round_binade) simp_all
  also have "(1700000000000 + 1 / 2) * 2 ^ 52 / 2 ^ 40 = (6963200000002048 :: real)"
    by simp
  also have "round_half_even 6963200000002048 = 6963200000002048"
    by (simp add: round_half_even_def Let_def)
  finally show ?thesis by simp
qed

lemma double_round_up:
  "double_round (1700000000000 + (1 - 1 / 2 ^ 20)) = 1700000000001"
proof -
  have "double_round (1700000000000 + (1 - 1 / 2 ^ 20))
        = of_int (round_half_even ((1700000000000 + (1 - 1 / 2 ^ 20)) * 2 ^ 52 / 2 ^ 40))
            * 2 ^ 40 / 2 ^ 52"
    by (rule double_round_binade) simp_all
  also have "(1700000000000 + (1 - 1 / 2 ^ 20)) * 2 ^ 52 / 2 ^ 40
             = (6963200000004095 + 255 / 256 :: real)"
    by simp
  also have "round_half_even (6963200000004095 + 255 / 256) = 6963200000004096"
    by (simp add: round_half_even_def Let_def)
  finally show ?thesis by simp
qed

lemma double_round_down: "double_round (1700000000001 + 1 / 2 ^ 20) = 1700000000001"
proof -
  have "double_round (1700000000001 + 1 / 2 ^ 20)
        = of_int (round_half_even ((1700000000001 + 1 / 2 ^ 20) * 2 ^ 52 / 2 ^ 40))
            * 2 ^ 40 / 2 ^ 52"
    by (rule double_round_binade) simp_all
  also have "(1700000000001 + 1 / 2 ^ 20) * 2 ^ 52 / 2 ^ 40
             = (6963200000004096 + 1 / 256 :: real)"
    by simp
  also have "round_half_even (6963200000004096 + 1 / 256) = 6963200000004096"
    by (simp add: round_half_even_def Let_def)
  finally show ?thesis by simp
qed

subsection \<open>\<^verbatim>\<open>createDefaultField\<close>\<close>

text \<open>
  C4, as stated, at two creations one millisecond apart: the first reads the clock at
  1700000000000 and draws \<open>1 - 2\<^sup>-\<^sup>2\<^sup>0\<close>, and its field is added to the tree; the second reads
  1700000000001 and draws \<open>2\<^sup>-\<^sup>2\<^sup>0\<close>.  Both sums are the double 1700000000001: the second
  call returns an id that a node of the tree has.  Nothing in \<^verbatim>\<open>createDefaultField\<close> looks
  at the tree.
\<close>

theorem createDefaultField_collision_counterexample:
  "fid (createDefaultField 1700000000001 (1 / 2 ^ 20))
     \<in> set (forest_ids (addField initialFields 1700000000000 (1 - 1 / 2 ^ 20)))"
  using double_round_up double_round_down
  by (simp add: createDefaultField_def addField_def forest_ids_def forest_nodes_def)

text \<open>
  C4, amended: every call returns a field with type \<^verbatim>\<open>"string"\<close>, empty \<^verbatim>\<open>keyName\<close>, empty
  \<^verbatim>\<open>children\<close> and, as its id, the double sum of the clock reading and the random draw.
  For a clock reading of magnitude below \<open>2\<^sup>5\<^sup>3\<close> and a draw from 0 to below 1 the id lies
  from the clock reading to the clock reading plus one, both included, and it is distinct
  from the id of every node of the tree when every id in the tree is below the clock
  reading.
\<close>

theorem createDefaultField_default:
  "keyName (createDefaultField now rnd) = ''''
   \<and> ftype (createDefaultField now rnd) = ''string''
   \<and> children (createDefaultField now rnd) = []
   \<and> fid (createDefaultField now rnd) = double_round (of_int now + rnd)
   \<and> (\<bar>now\<bar> < 2 ^ 53 \<and> 0 \<le> rnd \<and> rnd < 1 \<longrightarrow>
        of_int now \<le> fid (createDefaultField now rnd)
        \<and> fid (createDefaultField now rnd) \<le> of_int now + 1
        \<and> ((\<forall>x \<in> set (forest_ids fields). x < of_int now) \<longrightarrow>
             fid (createDefaultField now rnd) \<notin> set (forest_ids fields)))"
proof -
  have "of_int now \<le> double_round (of_int now + rnd)
        \<and> double_round (of_int now + rnd) \<le> of_int now + 1
        \<and> ((\<forall>x \<in> set (forest_ids fields). x < of_int now) \<longrightarrow>
             double_round (of_int now + rnd) \<notin> set (forest_ids fields))"
    if range: "\<bar>now\<bar> < 2 ^ 53" "0 \<le> rnd" "rnd < 1"
  proof -
    have b: "of_int now \<le> double_round (of_int now + rnd)"
      "double_round (of_int now + rnd) \<le> of_int now + 1"
      using double_round_clock_bounds [OF range] by simp_all
    have "double_round (of_int now + rnd) \<notin> set (forest_ids fields)"
      if below: "\<forall>x \<in> set (forest_ids fields). x < of_int now"
    proof
      assume "double_round (of_int now + rnd) \<in> set (forest_ids fields)"
      with below have "double_round (of_int now + rnd) < of_int now" by blast
      with b(1) show False by simp
    qed
    with b show ?thesis by blast
  qed
  then show ?thesis
    by (simp add: createDefaultField_def)
qed

theorem createDefaultField_default_witness:
  "\<bar>1700000000000 :: int\<bar> < 2 ^ 53
   \<and> (0::real) \<le> 1 / 2 \<and> (1 / 2 :: real) < 1
   \<and> list_all (\<lambda>x. x < 1700000000000) (forest_ids initialFields)
   \<and> createDefaultField 1700000000000 (1 / 2) = Field (1700000000000 + 1 / 2) '''' ''string'' []
   \<and> fid (createDefaultField 1700000000000 (1 / 2)) \<notin> set (forest_ids initialFields)"
proof -
  have n: "\<bar>1700000000000 :: int\<bar> < 2 ^ 53" by simp
  have r: "(0::real) \<le> 1 / 2" "(1 / 2 :: real) < 1" by simp_all
  have b: "\<forall>x \<in> set (forest_ids initialFields). x < of_int 1700000000000"
    by (simp add: initialFields_def forest_ids_def forest_nodes_def)
  note t = createDefaultField_default [of 1700000000000 "1 / 2" initialFields]
  have "fid (createDefaultField 1700000000000 (1 / 2)) = 1700000000000 + 1 / 2"
    using t double_round_half by simp
  moreover have "keyName (createDefaultField 1700000000000 (1 / 2)) = ''''"
    and "ftype (createDefaultField 1700000000000 (1 / 2)) = ''string''"
    and "children (createDefaultField 1700000000000 (1 / 2)) = []"
    using t by blast+
  ultimately have c: "createDefaultField 1700000000000 (1 / 2)
        = Field (1700000000000 + 1 / 2) '''' ''string'' []"
    by (cases "createDefaultField 1700000000000 (1 / 2)") simp
  have "fid (createDefaultField 1700000000000 (1 / 2)) \<notin> set (forest_ids initialFields)"
    using t n r b by blast
  with n r b c show ?thesis
    by (simp add: list_all_iff)
qed

section \<open>Properties of \<^verbatim>\<open>generateSchema\<close>\<close>

lemma forEach_field_append:
  "forEach_field (xs @ ys) schema = forEach_field ys (forEach_field xs schema)"
proof (induction xs arbitrary: schema)
  case Nil
  show ?case by simp
next
  case (Cons f xs)
  show ?case by (cases f) (simp add: Cons.IH)
qed

lemma forEach_field_skip:
  "k = '''' \<or> (t \<noteq> ''string'' \<and> t \<noteq> ''number'' \<and> t \<noteq> ''nested'') \<Longrightarrow>
   forEach_field (pre @ Field i k t cs # post) schema = forEach_field (pre @ post) schema"
  by (auto simp: forEach_field_append)

subsection \<open>Fields that emit nothing\<close>

text \<open>
  C6, as stated, at a field whose \<^verbatim>\<open>keyName\<close> is one space: the name is blank, and the
  projection has a key for it.  \<^verbatim>\<open>!field.keyName\<close> is true of the empty string only.
\<close>

theorem blank_keyName_counterexample:
  "generateSchema [Field 1 '' '' ''string'' []] = JObject [('' '', JString ''String (default)'')]"
  by (simp add: js_assign_def array_index_def is_digit_def)

text \<open>
  C6, amended: a field whose \<^verbatim>\<open>keyName\<close> is the empty string contributes nothing,
  whatever its type, its children and its place in the sequence: the projection is that
  of the sequence without the field.
\<close>

theorem empty_keyName_skipped:
  "generateSchema (pre @ Field i '''' t cs # post) = generateSchema (pre @ post)"
  by (simp add: forEach_field_skip)



subsection \<open>The assignment \<^verbatim>\<open>schema[k] = v\<close>\<close>

lemma js_assign_proto: "js_assign schema ''__proto__'' v = schema"
  by (simp add: js_assign_def)

lemma js_assign_new:
  assumes "k \<noteq> ''__proto__''" and "k \<notin> set (map fst schema)"
  shows "\<exists>pre post. schema = pre @ post \<and> js_assign schema k v = pre @ [(k, v)] @ post"
proof (cases "array_index k")
  case None
  with assms have "schema = schema @ [] \<and> js_assign schema k v = schema @ [(k, v)] @ []"
    by (simp add: js_assign_def)
  then show ?thesis by blast
next
  case (Some n)
  with assms have "schema = takeWhile (index_below n) schema @ dropWhile (index_below n) schema
      \<and> js_assign schema k v
          = takeWhile (index_below n) schema @ [(k, v)] @ dropWhile (index_below n) schema"
    by (simp add: js_assign_def)
  then show ?thesis by blast
qed

lemma keys_replace: "map fst (map (\<lambda>p. if fst p = k then (k, v) else p) schema) = map fst schema"
  by (induction schema) auto

lemma keys_js_assign_existing:
  "k \<in> set (map fst schema) \<Longrightarrow> map fst (js_assign schema k v) = map fst schema"
  by (simp add: js_assign_def keys_replace)

lemma keys_js_assign_new:
  "k \<notin> set (map fst schema) \<Longrightarrow> k \<noteq> ''__proto__'' \<Longrightarrow> array_index k = None \<Longrightarrow>
   map fst (js_assign schema k v) = map fst schema @ [k]"
  by (simp add: js_assign_def)

lemma set_keys_js_assign:
  assumes "k \<noteq> ''__proto__''"
  shows "set (map fst (js_assign schema k v)) = insert k (set (map fst schema))"
proof (cases "k \<in> set (map fst schema)")
  case True
  then show ?thesis
    using keys_js_assign_existing [OF True, of v] by auto
next
  case False
  from js_assign_new [OF assms False, of v] obtain pre post
    where "schema = pre @ post" and "js_assign schema k v = pre @ [(k, v)] @ post"
    by blast
  then show ?thesis by auto
qed

lemma distinct_keys_js_assign:
  assumes "distinct (map fst schema)"
  shows "distinct (map fst (js_assign schema k v))"
proof (cases "k = ''__proto__'' \<or> k \<in> set (map fst schema)")
  case True
  then show ?thesis
    using assms by (auto simp: js_assign_proto keys_js_assign_existing simp del: set_map)
next
  case False
  then have "k \<noteq> ''__proto__''" and "k \<notin> set (map fst schema)" by simp_all
  from js_assign_new [OF this, of v] obtain pre post
    where s: "schema = pre @ post" and j: "js_assign schema k v = pre @ [(k, v)] @ post"
    by blast
  from False s have "k \<notin> set (map fst pre)" "k \<notin> set (map fst post)" by auto
  with assms s show ?thesis unfolding j by auto
qed

lemma map_of_replace_same:
  "k \<in> set (map fst schema) \<Longrightarrow>
   map_of (map (\<lambda>p. if fst p = k then (k, v) else p) schema) k = Some v"
  by (induction schema) auto

lemma map_of_replace_other:
  "k' \<noteq> k \<Longrightarrow> map_of (map (\<lambda>p. if fst p = k then (k, v) else p) schema) k' = map_of schema k'"
  by (induction schema) auto

lemma map_of_inserted_same:
  "k \<notin> set (map fst pre) \<Longrightarrow> map_of (pre @ [(k, v)] @ post) k = Some v"
  by (induction pre) auto

lemma map_of_inserted_other:
  "k' \<noteq> k \<Longrightarrow> map_of (pre @ [(k, v)] @ post) k' = map_of (pre @ post) k'"
  by (induction pre) auto

lemma map_of_js_assign_same:
  assumes "k \<noteq> ''__proto__''"
  shows "map_of (js_assign schema k v) k = Some v"
proof (cases "k \<in> set (map fst schema)")
  case True
  then show ?thesis
    using assms by (simp add: js_assign_def map_of_replace_same del: set_map)
next
  case False
  from js_assign_new [OF assms False, of v] obtain pre post
    where s: "schema = pre @ post" and j: "js_assign schema k v = pre @ [(k, v)] @ post"
    by blast
  from False s have "k \<notin> set (map fst pre)" by auto
  then show ?thesis unfolding j by (rule map_of_inserted_same)
qed

lemma map_of_js_assign_other:
  assumes "k' \<noteq> k"
  shows "map_of (js_assign schema k v) k' = map_of schema k'"
proof (cases "k = ''__proto__'' \<or> k \<in> set (map fst schema)")
  case True
  then show ?thesis
    using assms by (auto simp: js_assign_def map_of_replace_other simp del: set_map)
next
  case False
  then have "k \<noteq> ''__proto__''" and "k \<notin> set (map fst schema)" by simp_all
  from js_assign_new [OF this, of v] obtain pre post
    where s: "schema = pre @ post" and j: "js_assign schema k v = pre @ [(k, v)] @ post"
    by blast
  have "map_of (pre @ [(k, v)] @ post) k' = map_of (pre @ post) k'"
    by (rule map_of_inserted_other [OF assms])
  then show ?thesis using j s by simp
qed

subsection \<open>One step of the loop\<close>

lemma forEach_field_Cons:
  "forEach_field (f # fs) schema = forEach_field fs (forEach_field [f] schema)"
  using forEach_field_append [of "[f]" fs schema] by simp

lemma forEach_field_assigns:
  "assigns f \<Longrightarrow> forEach_field [f] schema = js_assign schema (keyName f) (assigned_value f)"
  by (cases f) (auto simp: assigns_def recognised_def assigned_value_def)

lemma forEach_field_no_assign:
  "\<not> assigns f \<Longrightarrow> forEach_field [f] schema = schema"
  by (cases f) (auto simp: assigns_def recognised_def js_assign_proto)

lemma assigned_keys_Cons:
  "assigned_keys (f # fs) = (if assigns f then keyName f # assigned_keys fs else assigned_keys fs)"
  by (simp add: assigned_keys_def)

lemma assigns_not_proto: "assigns f \<Longrightarrow> keyName f \<noteq> ''__proto__''"
  by (simp add: assigns_def)

subsection \<open>Bindings\<close>

lemma distinct_keys_forEach_field:
  "distinct (map fst schema) \<Longrightarrow> distinct (map fst (forEach_field fields schema))"
proof (induction fields arbitrary: schema)
  case Nil
  then show ?case by simp
next
  case (Cons f fs)
  have "distinct (map fst (forEach_field [f] schema))"
    using Cons.prems
    by (cases "assigns f") (simp_all add: forEach_field_assigns forEach_field_no_assign
        distinct_keys_js_assign)
  then show ?case
    using Cons.IH forEach_field_Cons [of f fs schema] by simp
qed

lemma map_of_forEach_field_other:
  "k \<notin> set (assigned_keys fields) \<Longrightarrow>
   map_of (forEach_field fields schema) k = map_of schema k"
proof (induction fields arbitrary: schema)
  case Nil
  then show ?case by simp
next
  case (Cons f fs)
  have "map_of (forEach_field [f] schema) k = map_of schema k"
  proof (cases "assigns f")
    case True
    with Cons.prems have "k \<noteq> keyName f" by (auto simp: assigned_keys_Cons)
    with True show ?thesis
      by (simp add: forEach_field_assigns map_of_js_assign_other)
  next
    case False
    then show ?thesis by (simp add: forEach_field_no_assign)
  qed
  moreover have "k \<notin> set (assigned_keys fs)"
    using Cons.prems by (auto simp: assigned_keys_Cons split: if_splits)
  ultimately show ?case
    using Cons.IH [of "forEach_field [f] schema"] forEach_field_Cons [of f fs schema] by simp
qed

lemma last_assignment_wins:
  assumes "assigns f" and "keyName f \<notin> set (assigned_keys post)"
  shows "map_of (forEach_field (pre @ f # post) schema) (keyName f) = Some (assigned_value f)"
proof -
  have "forEach_field (pre @ f # post) schema
        = forEach_field post (forEach_field [f] (forEach_field pre schema))"
    using forEach_field_append [of pre "f # post" schema]
      forEach_field_Cons [of f post "forEach_field pre schema"] by simp
  then show ?thesis
    using assms
    by (simp add: map_of_forEach_field_other forEach_field_assigns map_of_js_assign_same
        assigns_not_proto)
qed

lemma one_key_per_name: "distinct (object_keys (generateSchema fields))"
  using distinct_keys_forEach_field [of "[]" fields] by (simp add: object_keys_def)

subsection \<open>The order of the keys\<close>

lemma keys_forEach_field_plain:
  assumes "\<forall>k \<in> set (assigned_keys fields). array_index k = None"
  shows "map fst (forEach_field fields schema)
         = fold (\<lambda>k ks. if k \<in> set ks then ks else ks @ [k]) (assigned_keys fields)
             (map fst schema)"
  using assms
proof (induction fields arbitrary: schema)
  case Nil
  show ?case by (simp add: assigned_keys_def)
next
  case (Cons f fs)
  have rest: "\<forall>k \<in> set (assigned_keys fs). array_index k = None"
    using Cons.prems by (auto simp: assigned_keys_Cons split: if_splits)
  show ?case
  proof (cases "assigns f")
    case True
    with Cons.prems have plain: "array_index (keyName f) = None"
      by (simp add: assigned_keys_Cons)
    have "map fst (forEach_field [f] schema)
          = (if keyName f \<in> set (map fst schema) then map fst schema
             else map fst schema @ [keyName f])"
      using True plain
      by (simp add: forEach_field_assigns keys_js_assign_existing keys_js_assign_new
          assigns_not_proto del: set_map)
    then show ?thesis
      using True Cons.IH [OF rest, of "forEach_field [f] schema"]
        forEach_field_Cons [of f fs schema]
      by (simp add: assigned_keys_Cons del: set_map)
  next
    case False
    then show ?thesis
      using Cons.IH [OF rest, of schema] forEach_field_Cons [of f fs schema]
      by (simp add: assigned_keys_Cons forEach_field_no_assign)
  qed
qed

lemma fold_append_new:
  "distinct ks \<Longrightarrow> set ks \<inter> set acc = {} \<Longrightarrow>
   fold (\<lambda>k ks. if k \<in> set ks then ks else ks @ [k]) ks acc = acc @ ks"
  by (induction ks arbitrary: acc) auto

lemma keys_in_field_order:
  assumes "\<forall>k \<in> set (assigned_keys fields). array_index k = None"
    and "distinct (assigned_keys fields)"
  shows "object_keys (generateSchema fields) = assigned_keys fields"
  using keys_forEach_field_plain [OF assms(1), of "[]"] fold_append_new [OF assms(2), of "[]"]
  by (simp add: object_keys_def)

text \<open>The fields \<^verbatim>\<open>a\<close>, \<^verbatim>\<open>b\<close>, \<^verbatim>\<open>c\<close> of any recognised types, ids and children.\<close>

lemma keys_a_b_c:
  assumes "recognised t1" and "recognised t2" and "recognised t3"
  shows "object_keys (generateSchema
           [Field i1 ''a'' t1 cs1, Field i2 ''b'' t2 cs2, Field i3 ''c'' t3 cs3])
         = [''a'', ''b'', ''c'']"
proof -
  have k: "assigned_keys [Field i1 ''a'' t1 cs1, Field i2 ''b'' t2 cs2, Field i3 ''c'' t3 cs3]
           = [''a'', ''b'', ''c'']"
    using assms by (simp add: assigned_keys_def assigns_def)
  have "array_index ''a'' = None" "array_index ''b'' = None" "array_index ''c'' = None"
    by (simp_all add: array_index_def is_digit_def)
  then show ?thesis
    using keys_in_field_order [of "[Field i1 ''a'' t1 cs1, Field i2 ''b'' t2 cs2, Field i3 ''c'' t3 cs3]"]
    unfolding k by simp
qed

subsection \<open>Where the projection departs from the sequence\<close>

text \<open>
  C3 at the fields \<^verbatim>\<open>b\<close>, \<^verbatim>\<open>1\<close>: both fields assign their key, in this order, and the
  projected object lists \<^verbatim>\<open>1\<close> before \<^verbatim>\<open>b\<close>: a key that is an array index is listed
  before every other key, whenever it was created.
\<close>

theorem index_key_listed_first:
  "assigned_keys [Field 1 ''b'' ''string'' [], Field 2 ''1'' ''string'' []] = [''b'', ''1'']
   \<and> generateSchema [Field 1 ''b'' ''string'' [], Field 2 ''1'' ''string'' []]
       = JObject [(''1'', JString ''String (default)''), (''b'', JString ''String (default)'')]"
  by (simp add: assigned_keys_def assigns_def recognised_def js_assign_def array_index_def
      is_digit_def decimal_val_def digit_val_def index_below_def)

text \<open>
  C8 at the name \<^verbatim>\<open>__proto__\<close>: the name is not empty and the type is recognised, and
  the projection has no key for the field, whichever of the three types it has.  The
  assignment \<^verbatim>\<open>schema["__proto__"] = v\<close> runs the setter inherited from
  \<^verbatim>\<open>Object.prototype\<close> and creates no property.
\<close>

theorem proto_key_not_emitted:
  "generateSchema [Field 1 ''__proto__'' ''string'' []] = JObject []
   \<and> generateSchema [Field 1 ''__proto__'' ''number'' []] = JObject []
   \<and> generateSchema [Field 1 ''__proto__'' ''nested'' [Field 2 ''a'' ''number'' []]] = JObject []"
  by (simp add: js_assign_def)

text \<open>
  C10 at two fields named \<^verbatim>\<open>__proto__\<close>: the projection has no key of that name, where
  the claim has exactly one, bound to the value of the second field.
\<close>

theorem repeated_proto_key_not_emitted:
  "generateSchema [Field 1 ''__proto__'' ''string'' [], Field 2 ''__proto__'' ''number'' []]
   = JObject []"
  by (simp add: js_assign_def)

section \<open>Properties of the objects\<close>

subsection \<open>Heaps that grow\<close>

lemma deref_Some_iff: "deref h r = Some c \<longleftrightarrow> r < length h \<and> h ! r = c"
  by (auto simp: deref_def)

lemma deref_append_old: "r < length h \<Longrightarrow> deref (h @ new) r = deref h r"
  by (simp add: deref_def nth_append)

lemma deref_append_new: "deref (h @ [c]) (length h) = Some c"
  by (simp add: deref_def)

lemma id_of_valid: "id_of h r \<noteq> None \<Longrightarrow> r < length h"
  by (auto simp: id_of_def deref_def split: if_splits)

lemma id_of_append_old: "r < length h \<Longrightarrow> id_of (h @ new) r = id_of h r"
  by (simp add: id_of_def deref_append_old)

lemma id_of_FieldObj: "deref h r = Some (FieldObj i k t cs) \<Longrightarrow> id_of h r = Some i"
  by (simp add: id_of_def)

subsection \<open>The update of a child of a root field\<close>

lemma replace_by_id_map:
  assumes "id_of h u = Some j" and "\<forall>r \<in> set xs. id_of h r \<noteq> None"
  shows "replace_by_id h u xs = Some (map (\<lambda>r. if id_of h r = Some j then u else r) xs)"
  using assms(2)
proof (induction xs)
  case Nil
  show ?case by simp
next
  case (Cons x xs)
  then obtain i where "id_of h x = Some i" by auto
  with Cons assms(1) show ?case by simp
qed

text \<open>
  The roots are \<open>fields\<close>; \<open>a\<close> is the object of the field \<open>A\<close> and \<open>x\<close> that of its
  child \<open>X\<close>, which the row of \<open>X\<close> changes by \<open>c\<close>.  The update allocates two objects,
  the changed \<open>X\<close> at \<open>length h\<close> and the rebuilt \<open>A\<close> at \<open>length h + 1\<close>, and writes to
  no object that existed: the old heap is a prefix of the new one.  The new root sequence
  has the new \<open>A\<close> wherever a root has the id of \<open>A\<close>, and the children of the new \<open>A\<close> have
  the new \<open>X\<close> wherever a child has the id of \<open>X\<close>; every other reference is the one that
  was there.
\<close>

lemma edit_child_result:
  assumes a: "deref h a = Some (FieldObj ia ka ta cs)"
    and x: "deref h x = Some (FieldObj ix kx tx xs)"
    and kids: "\<forall>r \<in> set cs. id_of h r \<noteq> None"
    and roots: "\<forall>r \<in> set fields. id_of h r \<noteq> None"
  shows "\<exists>h' fields'. edit_child h fields a x c = Some (h', fields')
       \<and> take (length h) h' = h
       \<and> length h' = length h + 2
       \<and> fields' = map (\<lambda>r. if id_of h r = Some ia then length h + 1 else r) fields
       \<and> deref h' (length h + 1)
           = Some (FieldObj ia ka ta (map (\<lambda>r. if id_of h r = Some ix then length h else r) cs))
       \<and> deref h' (length h)
           = Some (case c of SetKeyName k' \<Rightarrow> FieldObj ix k' tx xs
                           | SetType t' \<Rightarrow> FieldObj ix kx t' xs)"
proof -
  define x' where "x' = (case c of SetKeyName k' \<Rightarrow> FieldObj ix k' tx xs
                                  | SetType t' \<Rightarrow> FieldObj ix kx t' xs)"
  define h1 where "h1 = h @ [x']"
  define newChildren where "newChildren = map (\<lambda>r. if id_of h r = Some ix then length h else r) cs"
  define h2 where "h2 = h1 @ [FieldObj ia ka ta newChildren]"
  have la: "a < length h" and lx: "x < length h"
    using a x by (simp_all add: deref_Some_iff)
  have idx': "id_of h1 (length h) = Some ix"
    by (cases c) (simp_all add: h1_def x'_def id_of_def deref_append_new)
  have kids1: "\<forall>r \<in> set cs. id_of h1 r \<noteq> None \<and> id_of h1 r = id_of h r"
    using kids id_of_valid [of h] by (simp add: h1_def id_of_append_old)
  have "replace_by_id h1 (length h) cs
        = Some (map (\<lambda>r. if id_of h1 r = Some ix then length h else r) cs)"
    using replace_by_id_map [OF idx'] kids1 by blast
  also have "map (\<lambda>r. if id_of h1 r = Some ix then length h else r) cs = newChildren"
    using kids1 by (simp add: newChildren_def)
  finally have rc: "replace_by_id h1 (length h) cs = Some newChildren" .
  have a1: "deref h1 a = Some (FieldObj ia ka ta cs)"
    using a la by (simp add: h1_def deref_append_old)
  have ida': "id_of h2 (length h1) = Some ia"
    by (simp add: h2_def id_of_def deref_append_new)
  have roots2: "\<forall>r \<in> set fields. id_of h2 r \<noteq> None \<and> id_of h2 r = id_of h r"
    using roots id_of_valid [of h] by (simp add: h2_def h1_def id_of_append_old)
  have "replace_by_id h2 (length h1) fields
        = Some (map (\<lambda>r. if id_of h2 r = Some ia then length h1 else r) fields)"
    using replace_by_id_map [OF ida'] roots2 by blast
  also have "map (\<lambda>r. if id_of h2 r = Some ia then length h1 else r) fields
             = map (\<lambda>r. if id_of h r = Some ia then length h + 1 else r) fields"
    using roots2 by (simp add: h1_def)
  finally have ru: "updateField_h h2 fields (length h1)
        = Some (map (\<lambda>r. if id_of h r = Some ia then length h + 1 else r) fields)"
    by (simp add: updateField_h_def)
  have "edit_child h fields a x c
        = Some (h2, map (\<lambda>r. if id_of h r = Some ia then length h + 1 else r) fields)"
    using x a1 rc ru
    by (simp add: edit_child_def handleUpdate_h_def handleChildUpdate_h_def
        h1_def [symmetric] x'_def [symmetric] h2_def [symmetric])
  moreover have "take (length h) h2 = h" "length h2 = length h + 2"
    by (simp_all add: h2_def h1_def)
  moreover have "deref h2 (length h + 1) = Some (FieldObj ia ka ta newChildren)"
    using deref_append_new [of h1] by (simp add: h2_def h1_def)
  moreover have "deref h2 (length h) = Some x'"
    by (simp add: h2_def h1_def deref_def nth_append)
  ultimately show ?thesis
    unfolding newChildren_def x'_def by blast
qed

lemma map_replace_ref:
  assumes "p < length xs" and "g (xs ! p) = v"
    and "\<forall>j < length xs. j \<noteq> p \<longrightarrow> g (xs ! j) \<noteq> v"
  shows "map (\<lambda>r. if g r = v then n else r) xs = xs[p := n]"
proof (rule nth_equalityI)
  show "length (map (\<lambda>r. if g r = v then n else r) xs) = length (xs[p := n])"
    by simp
next
  fix i
  assume "i < length (map (\<lambda>r. if g r = v then n else r) xs)"
  then have i: "i < length xs" by simp
  have "g (xs ! i) = v \<longleftrightarrow> i = p"
    using assms(2,3) i by blast
  then show "map (\<lambda>r. if g r = v then n else r) xs ! i = xs[p := n] ! i"
    using i assms(1) by (simp add: nth_list_update)
qed

text \<open>
  C5, as stated, at two trees with a repeated id.  In the first a sibling of \<open>X\<close> has the id
  of \<open>X\<close>: the root \<^verbatim>\<open>A\<close> (reference 0) has the children \<^verbatim>\<open>X\<close> (reference 1) and \<^verbatim>\<open>Z\<close>
  (reference 2), both of id 2, and \<^verbatim>\<open>B\<close> is the root at reference 3.  Renaming \<^verbatim>\<open>X\<close> gives the
  rebuilt \<^verbatim>\<open>A\<close> the children 4, 4: the place of \<^verbatim>\<open>Z\<close>, a subtree off the path to \<^verbatim>\<open>X\<close>, holds
  the changed \<^verbatim>\<open>X\<close>.  In the second \<^verbatim>\<open>B\<close> (reference 2) has the id of \<^verbatim>\<open>A\<close>: the new roots are
  4, 4, so the place of \<^verbatim>\<open>B\<close> holds the rebuilt \<^verbatim>\<open>A\<close>.  The \<^verbatim>\<open>map\<close> of \<^verbatim>\<open>handleChildUpdate\<close>
  and of \<^verbatim>\<open>updateField\<close> replaces every element of the id.
\<close>

theorem edit_child_repeated_id_counterexample:
  "edit_child
     [FieldObj 1 ''A'' ''nested'' [1, 2], FieldObj 2 ''X'' ''string'' [],
      FieldObj 2 ''Z'' ''number'' [], FieldObj 3 ''B'' ''string'' []]
     [0, 3] 0 1 (SetKeyName ''Y'')
   = Some ([FieldObj 1 ''A'' ''nested'' [1, 2], FieldObj 2 ''X'' ''string'' [],
            FieldObj 2 ''Z'' ''number'' [], FieldObj 3 ''B'' ''string'' [],
            FieldObj 2 ''Y'' ''string'' [], FieldObj 1 ''A'' ''nested'' [4, 4]],
           [5, 3])
   \<and> edit_child
     [FieldObj 1 ''A'' ''nested'' [1], FieldObj 2 ''X'' ''string'' [],
      FieldObj 1 ''B'' ''string'' []]
     [0, 2] 0 1 (SetKeyName ''Y'')
   = Some ([FieldObj 1 ''A'' ''nested'' [1], FieldObj 2 ''X'' ''string'' [],
            FieldObj 1 ''B'' ''string'' [],
            FieldObj 2 ''Y'' ''string'' [], FieldObj 1 ''A'' ''nested'' [3]],
           [4, 4])"
  by (simp add: edit_child_def handleUpdate_h_def handleChildUpdate_h_def updateField_h_def
      id_of_def deref_def)

text \<open>
  C5, amended: \<open>A\<close> is the root at position \<open>p\<close> and \<open>X\<close> its child at position \<open>q\<close>; no other
  root has the id of \<open>A\<close> and no other child of \<open>A\<close> has the id of \<open>X\<close>.  Changing \<open>X\<close> through
  its row allocates exactly two objects, the changed \<open>X\<close> and the rebuilt \<open>A\<close>, and writes to
  no object that existed (the old heap is a prefix of the new one).  The new root sequence
  is the old one with the new \<open>A\<close> at position \<open>p\<close>: every other root, so \<open>B\<close>, is the same
  reference as before.  The children of the new \<open>A\<close> are those of \<open>A\<close> with the new \<open>X\<close> at
  position \<open>q\<close>: every sibling of \<open>X\<close> is the same reference as before.
\<close>

theorem edit_child_rebuilds_path_only:
  assumes a: "deref h a = Some (FieldObj ia ka ta cs)"
    and x: "deref h x = Some (FieldObj ix kx tx xs)"
    and kids: "\<forall>r \<in> set cs. id_of h r \<noteq> None"
    and roots: "\<forall>r \<in> set fields. id_of h r \<noteq> None"
    and p: "p < length fields" "fields ! p = a"
    and q: "q < length cs" "cs ! q = x"
    and other_roots: "\<forall>j < length fields. j \<noteq> p \<longrightarrow> id_of h (fields ! j) \<noteq> Some ia"
    and other_kids: "\<forall>j < length cs. j \<noteq> q \<longrightarrow> id_of h (cs ! j) \<noteq> Some ix"
  shows "\<exists>h'. edit_child h fields a x c = Some (h', fields[p := length h + 1])
       \<and> take (length h) h' = h
       \<and> length h' = length h + 2
       \<and> deref h' (length h + 1) = Some (FieldObj ia ka ta (cs[q := length h]))
       \<and> deref h' (length h)
           = Some (case c of SetKeyName k' \<Rightarrow> FieldObj ix k' tx xs
                           | SetType t' \<Rightarrow> FieldObj ix kx t' xs)"
proof -
  have "id_of h (fields ! p) = Some ia"
    using a p(2) by (simp add: id_of_FieldObj)
  then have f: "map (\<lambda>r. if id_of h r = Some ia then length h + 1 else r) fields
                = fields[p := length h + 1]"
    using other_roots by (rule map_replace_ref [OF p(1)])
  have "id_of h (cs ! q) = Some ix"
    using x q(2) by (simp add: id_of_FieldObj)
  then have k: "map (\<lambda>r. if id_of h r = Some ix then length h else r) cs = cs[q := length h]"
    using other_kids by (rule map_replace_ref [OF q(1)])
  from edit_child_result [OF a x kids roots, of c] show ?thesis
    unfolding f k by blast
qed

theorem edit_child_rebuilds_path_only_witness:
  "deref heap_A_XZ_B 0 = Some (FieldObj 1 ''A'' ''nested'' [1, 2])
   \<and> deref heap_A_XZ_B 1 = Some (FieldObj 2 ''X'' ''string'' [])
   \<and> list_all (\<lambda>r. id_of heap_A_XZ_B r \<noteq> None) [1, 2]
   \<and> list_all (\<lambda>r. id_of heap_A_XZ_B r \<noteq> None) [0, 3]
   \<and> (0::nat) < length [0, 3 :: nat] \<and> [0, 3] ! 0 = (0::nat)
   \<and> (0::nat) < length [1, 2 :: nat] \<and> [1, 2] ! 0 = (1::nat)
   \<and> id_of heap_A_XZ_B ([0, 3] ! 1) \<noteq> Some 1
   \<and> id_of heap_A_XZ_B ([1, 2] ! 1) \<noteq> Some 2
   \<and> (\<exists>h'. edit_child heap_A_XZ_B [0, 3] 0 1 (SetKeyName ''Y'') = Some (h', [5, 3])
          \<and> take 4 h' = heap_A_XZ_B
          \<and> length h' = 6
          \<and> deref h' 5 = Some (FieldObj 1 ''A'' ''nested'' [4, 2])
          \<and> deref h' 4 = Some (FieldObj 2 ''Y'' ''string'' []))"
proof -
  have a: "deref heap_A_XZ_B 0 = Some (FieldObj 1 ''A'' ''nested'' [1, 2])"
    and x: "deref heap_A_XZ_B 1 = Some (FieldObj 2 ''X'' ''string'' [])"
    by (simp_all add: heap_A_XZ_B_def deref_def)
  have kids: "\<forall>r \<in> set [1, 2]. id_of heap_A_XZ_B r \<noteq> None"
    and roots: "\<forall>r \<in> set [0, 3]. id_of heap_A_XZ_B r \<noteq> None"
    by (simp_all add: heap_A_XZ_B_def id_of_def deref_def)
  have p: "(0::nat) < length [0, 3 :: nat]" "[0, 3] ! 0 = (0::nat)"
    and q: "(0::nat) < length [1, 2 :: nat]" "[1, 2] ! 0 = (1::nat)"
    by simp_all
  have b: "id_of heap_A_XZ_B ([0, 3] ! 1) \<noteq> Some 1"
    and z: "id_of heap_A_XZ_B ([1, 2] ! 1) \<noteq> Some 2"
    by (simp_all add: heap_A_XZ_B_def id_of_def deref_def)
  have other_roots: "\<forall>j < length [0, 3 :: nat]. j \<noteq> 0 \<longrightarrow> id_of heap_A_XZ_B ([0, 3] ! j) \<noteq> Some 1"
    using b by (auto simp: less_Suc_eq)
  have other_kids: "\<forall>j < length [1, 2 :: nat]. j \<noteq> 0 \<longrightarrow> id_of heap_A_XZ_B ([1, 2] ! j) \<noteq> Some 2"
    using z by (auto simp: less_Suc_eq)
  have l: "length heap_A_XZ_B = 4"
    by (simp add: heap_A_XZ_B_def)
  from edit_child_rebuilds_path_only [OF a x kids roots p q other_roots other_kids,
      of "SetKeyName ''Y''"]
  have "\<exists>h'. edit_child heap_A_XZ_B [0, 3] 0 1 (SetKeyName ''Y'') = Some (h', [5, 3])
          \<and> take 4 h' = heap_A_XZ_B
          \<and> length h' = 6
          \<and> deref h' 5 = Some (FieldObj 1 ''A'' ''nested'' [4, 2])
          \<and> deref h' 4 = Some (FieldObj 2 ''Y'' ''string'' [])"
    by (simp add: l)
  with a x kids roots p q b z show ?thesis by (simp add: list_all_iff)
qed

subsection \<open>What survives a change of the heap\<close>

lemma take_prefix_length: "take (length h) h' = h \<Longrightarrow> length h \<le> length h'"
  by (drule arg_cong [where f = length]) (simp add: min_def split: if_splits)

lemma take_prefix_nth: "take (length h) h' = h \<Longrightarrow> r < length h \<Longrightarrow> h' ! r = h ! r"
  by (metis nth_take)

lemma deref_extend:
  assumes "take (length h) h' = h" and "deref h r = Some c"
  shows "deref h' r = Some c"
  using assms take_prefix_length [OF assms(1)] take_prefix_nth [OF assms(1), of r]
  by (auto simp: deref_def split: if_splits)

lemma field_at_extend:
  "field_at h r f \<Longrightarrow> take (length h) h' = h \<Longrightarrow> field_at h' r f"
  "fields_at h rs fs \<Longrightarrow> take (length h) h' = h \<Longrightarrow> fields_at h' rs fs"
proof (induction h r f and h rs fs rule: field_at_fields_at.induct)
  case (1 h r i k t fs)
  from "1.prems"(1) obtain cs where d: "deref h r = Some (FieldObj i k t cs)"
    and c: "fields_at h cs fs"
    by (auto split: option.splits cell.splits)
  have "deref h' r = Some (FieldObj i k t cs)"
    using deref_extend [OF "1.prems"(2) d] .
  moreover have "fields_at h' cs fs"
    using "1.IH" d c "1.prems"(2) by blast
  ultimately show ?case by simp
qed simp_all

lemma deref_agree:
  assumes "length h \<le> length h'" and "\<forall>r. lo \<le> r \<and> r < length h \<longrightarrow> h' ! r = h ! r"
    and "lo \<le> r" and "deref h r = Some c"
  shows "deref h' r = Some c"
  using assms by (auto simp: deref_def split: if_splits)

lemma json_at_agree:
  "json_at h lo v j \<Longrightarrow> length h \<le> length h' \<Longrightarrow>
   \<forall>r. lo \<le> r \<and> r < length h \<longrightarrow> h' ! r = h ! r \<Longrightarrow> json_at h' lo v j"
  "props_at h lo ps jps \<Longrightarrow> length h \<le> length h' \<Longrightarrow>
   \<forall>r. lo \<le> r \<and> r < length h \<longrightarrow> h' ! r = h ! r \<Longrightarrow> props_at h' lo ps jps"
proof (induction h lo v j and h lo ps jps rule: json_at_props_at.induct)
  case (3 h lo v jps)
  from "3.prems"(1) obtain r ps where v: "v = VRef r" and lo: "lo \<le> r"
    and d: "deref h r = Some (SchemaObj ps)" and p: "props_at h lo ps jps"
    by (auto split: jsval.splits option.splits cell.splits)
  have "deref h' r = Some (SchemaObj ps)"
    using deref_agree [OF "3.prems"(2,3) lo d] .
  moreover have "props_at h' lo ps jps"
    using "3.IH" v d p "3.prems"(2,3) by blast
  ultimately show ?case using v lo by simp
qed simp_all

lemma json_at_weaken:
  "json_at h lo v j \<Longrightarrow> lo' \<le> lo \<Longrightarrow> json_at h lo' v j"
  "props_at h lo ps jps \<Longrightarrow> lo' \<le> lo \<Longrightarrow> props_at h lo' ps jps"
proof (induction h lo v j and h lo ps jps rule: json_at_props_at.induct)
  case (3 h lo v jps)
  from "3.prems"(1) obtain r ps where v: "v = VRef r" and lo: "lo \<le> r"
    and d: "deref h r = Some (SchemaObj ps)" and p: "props_at h lo ps jps"
    by (auto split: jsval.splits option.splits cell.splits)
  have "props_at h lo' ps jps"
    using "3.IH" v d p "3.prems"(2) by blast
  then show ?case using v lo d "3.prems"(2) by simp
qed simp_all

subsection \<open>The assignment, on both sides\<close>

lemma props_at_list_all2:
  "props_at h lo ps jps
   = list_all2 (\<lambda>p q. fst p = fst q \<and> json_at h lo (snd p) (snd q)) ps jps"
proof (induction ps arbitrary: jps)
  case Nil
  show ?case by (cases jps) simp_all
next
  case (Cons p ps)
  show ?case
  proof (cases jps)
    case Nil
    then show ?thesis by simp
  next
    case (Cons q qs)
    then show ?thesis using Cons.IH [of qs] by (cases q) simp
  qed
qed

lemma list_all2_takeWhile_dropWhile:
  assumes "list_all2 R xs ys" and "\<And>x y. R x y \<Longrightarrow> P x = Q y"
  shows "list_all2 R (takeWhile P xs) (takeWhile Q ys)
       \<and> list_all2 R (dropWhile P xs) (dropWhile Q ys)"
  using assms(1)
proof (induction rule: list_all2_induct)
  case Nil
  show ?case by simp
next
  case (Cons x xs y ys)
  then show ?case using assms(2) [of x y] by auto
qed

lemma list_all2_keys:
  "list_all2 (\<lambda>p q. fst p = fst q \<and> V (snd p) (snd q)) ps qs \<Longrightarrow> map fst ps = map fst qs"
  by (induction rule: list_all2_induct) simp_all

lemma js_assign_related:
  assumes r: "list_all2 (\<lambda>p q. fst p = fst q \<and> V (snd p) (snd q)) ps qs" and v: "V v w"
  shows "list_all2 (\<lambda>p q. fst p = fst q \<and> V (snd p) (snd q)) (js_assign ps k v) (js_assign qs k w)"
proof -
  let ?R = "\<lambda>p q. fst p = fst q \<and> V (snd p) (snd q)"
  have keys: "map fst ps = map fst qs"
    using r by (rule list_all2_keys)
  have same: "k \<in> set (map fst ps) \<longleftrightarrow> k \<in> set (map fst qs)"
    using keys by simp
  have repl: "list_all2 ?R (map (\<lambda>p. if fst p = k then (k, v) else p) ps)
                (map (\<lambda>q. if fst q = k then (k, w) else q) qs)"
    using r v by (auto simp: list_all2_map1 list_all2_map2 elim!: list_all2_mono)
  have app: "list_all2 ?R (ps @ [(k, v)]) (qs @ [(k, w)])"
    using r v by (simp add: list_all2_appendI)
  have ins: "list_all2 ?R (takeWhile (index_below n) ps @ [(k, v)] @ dropWhile (index_below n) ps)
        (takeWhile (index_below n) qs @ [(k, w)] @ dropWhile (index_below n) qs)" for n
  proof -
    have "?R x y \<Longrightarrow> index_below n x = index_below n y" for x y
      by (simp add: index_below_def)
    from list_all2_takeWhile_dropWhile [OF r this]
    show ?thesis using v by (simp add: list_all2_appendI)
  qed
  show ?thesis
    using same repl app ins r
    by (simp add: js_assign_def del: set_map split: option.splits)
qed

lemma props_at_js_assign:
  "props_at h lo ps jps \<Longrightarrow> json_at h lo v j \<Longrightarrow>
   props_at h lo (js_assign ps k v) (js_assign jps k j)"
  unfolding props_at_list_all2 by (rule js_assign_related)

subsection \<open>The loop keeps its invariant\<close>

lemma building_start: "building h0 (h0 @ [SchemaObj []]) []"
  by (simp add: building_def deref_append_new)

lemma buildingE:
  assumes "building h0 h jps"
  obtains ps where "take (length h0) h = h0" and "length h0 < length h"
    and "deref h (length h0) = Some (SchemaObj ps)" and "props_at h (Suc (length h0)) ps jps"
  using assms
  by (auto simp: building_def deref_Some_iff split: option.splits cell.splits)

lemma building_result:
  assumes "building h0 h jps"
  shows "take (length h0) h = h0 \<and> json_at h (length h0) (VRef (length h0)) (JObject jps)"
proof -
  from assms obtain ps where t: "take (length h0) h = h0"
    and d: "deref h (length h0) = Some (SchemaObj ps)"
    and p: "props_at h (Suc (length h0)) ps jps"
    by (rule buildingE)
  have "props_at h (length h0) ps jps"
    using json_at_weaken(2) [OF p] by simp
  with t d show ?thesis by simp
qed

lemma building_extend:
  assumes "building h0 h jps" and ext: "take (length h) h1 = h"
  shows "building h0 h1 jps"
proof -
  from assms(1) obtain ps where t: "take (length h0) h = h0" and l: "length h0 < length h"
    and d: "deref h (length h0) = Some (SchemaObj ps)"
    and p: "props_at h (Suc (length h0)) ps jps"
    by (rule buildingE)
  have "take (length h0) (take (length h) h1) = take (length h0) h1"
    using l by (simp add: min_def)
  then have "take (length h0) h1 = h0"
    using t ext by simp
  moreover have "deref h1 (length h0) = Some (SchemaObj ps)"
    using deref_extend [OF ext d] .
  moreover have "props_at h1 (Suc (length h0)) ps jps"
    using json_at_agree(2) [OF p take_prefix_length [OF ext]] take_prefix_nth [OF ext] by blast
  ultimately show ?thesis by (simp add: building_def)
qed

lemma building_assign:
  assumes "building h0 h jps" and v: "json_at h (Suc (length h0)) v j"
  shows "building h0 (assign_h h (length h0) k v) (js_assign jps k j)"
proof -
  from assms(1) obtain ps where t: "take (length h0) h = h0" and l: "length h0 < length h"
    and d: "deref h (length h0) = Some (SchemaObj ps)"
    and p: "props_at h (Suc (length h0)) ps jps"
    by (rule buildingE)
  define h' where "h' = h[length h0 := SchemaObj (js_assign ps k v)]"
  have a: "assign_h h (length h0) k v = h'"
    using d by (simp add: assign_h_def h'_def)
  have len: "length h \<le> length h'"
    by (simp add: h'_def)
  have same: "\<forall>r. Suc (length h0) \<le> r \<and> r < length h \<longrightarrow> h' ! r = h ! r"
    by (simp add: h'_def)
  have "props_at h' (Suc (length h0)) ps jps"
    using json_at_agree(2) [OF p len same] .
  moreover have "json_at h' (Suc (length h0)) v j"
    using json_at_agree(1) [OF v len same] .
  ultimately have "props_at h' (Suc (length h0)) (js_assign ps k v) (js_assign jps k j)"
    by (rule props_at_js_assign)
  moreover have "take (length h0) h' = h0"
    using t by (simp add: h'_def)
  moreover have "deref h' (length h0) = Some (SchemaObj (js_assign ps k v))"
    using l by (simp add: h'_def deref_def)
  ultimately show ?thesis
    unfolding a by (simp add: building_def)
qed

lemma forEach_h_refines:
  assumes calls: "\<And>h rs fs. fields_at h rs fs \<Longrightarrow> forest_height fs < n \<Longrightarrow>
      \<exists>h'. generateSchema_h n h rs = Some (length h, h') \<and> take (length h) h' = h
        \<and> json_at h' (length h) (VRef (length h)) (generateSchema fs)"
  shows "fields_at h0 rs fs \<Longrightarrow> forest_height fs \<le> n \<Longrightarrow> building h0 h jps \<Longrightarrow>
    \<exists>h'. forEach_h n rs (length h0) h = Some h' \<and> building h0 h' (forEach_field fs jps)"
proof (induction rs arbitrary: fs h jps)
  case Nil
  then have "fs = []" by (cases fs) simp_all
  with Nil show ?case by simp
next
  case (Cons r rs)
  from Cons.prems(1) obtain f fs' where fs: "fs = f # fs'"
    and f: "field_at h0 r f" and rest: "fields_at h0 rs fs'"
    by (cases fs) simp_all
  obtain i k t cfs where ff: "f = Field i k t cfs" by (cases f)
  from f ff obtain cs where d0: "deref h0 r = Some (FieldObj i k t cs)"
    and kids0: "fields_at h0 cs cfs"
    by (auto split: option.splits cell.splits)
  from Cons.prems(3) have t: "take (length h0) h = h0" and l: "length h0 < length h"
    by (auto elim: buildingE)
  have d: "deref h r = Some (FieldObj i k t cs)"
    using deref_extend [OF t d0] .
  have hrest: "forest_height fs' \<le> n" and hkids: "forest_height cfs < n"
    using Cons.prems(2) fs ff by simp_all
  note step = Cons.IH [OF rest hrest]
  consider (empty) "k = ''''"
    | (string) "k \<noteq> ''''" "t = ''string''"
    | (number) "k \<noteq> ''''" "t = ''number''"
    | (nested) "k \<noteq> ''''" "t = ''nested''"
    | (other) "k \<noteq> ''''" "t \<noteq> ''string''" "t \<noteq> ''number''" "t \<noteq> ''nested''"
    by blast
  then show ?case
  proof cases
    case empty
    with step [OF Cons.prems(3)] d fs ff show ?thesis by simp
  next
    case string
    have "building h0 (assign_h h (length h0) k (VString ''String (default)''))
            (js_assign jps k (JString ''String (default)''))"
      using building_assign [OF Cons.prems(3)] by simp
    from step [OF this] string d fs ff show ?thesis by simp
  next
    case number
    have "building h0 (assign_h h (length h0) k (VNumber 0)) (js_assign jps k (JNumber 0))"
      using building_assign [OF Cons.prems(3)] by simp
    from step [OF this] number d fs ff show ?thesis by simp
  next
    case nested
    have "fields_at h cs cfs"
      using field_at_extend(2) [OF kids0 t] .
    from calls [OF this hkids] obtain h1
      where g: "generateSchema_h n h cs = Some (length h, h1)"
        and ext: "take (length h) h1 = h"
        and j: "json_at h1 (length h) (VRef (length h)) (generateSchema cfs)"
      by blast
    have "json_at h1 (Suc (length h0)) (VRef (length h)) (generateSchema cfs)"
      using json_at_weaken(1) [OF j] l by simp
    with building_extend [OF Cons.prems(3) ext]
    have "building h0 (assign_h h1 (length h0) k (VRef (length h)))
            (js_assign jps k (generateSchema cfs))"
      by (rule building_assign)
    from step [OF this] nested d g fs ff show ?thesis by simp
  next
    case other
    with step [OF Cons.prems(3)] d fs ff show ?thesis by simp
  qed
qed

lemma generateSchema_h_refines:
  "fields_at h rs fs \<Longrightarrow> forest_height fs < n \<Longrightarrow>
   \<exists>h'. generateSchema_h n h rs = Some (length h, h') \<and> take (length h) h' = h
     \<and> json_at h' (length h) (VRef (length h)) (generateSchema fs)"
proof (induction n arbitrary: h rs fs)
  case 0
  then show ?case by simp
next
  case (Suc n)
  have "forest_height fs \<le> n"
    using Suc.prems(2) by simp
  from forEach_h_refines [of n h rs fs "h @ [SchemaObj []]" "[]", OF Suc.IH Suc.prems(1) this
      building_start]
  obtain h' where "forEach_h n rs (length h) (h @ [SchemaObj []]) = Some h'"
    and "building h h' (forEach_field fs [])"
    by blast
  then show ?case
    using building_result [of h h' "forEach_field fs []"] by simp
qed

subsection \<open>Two calls on one snapshot\<close>

text \<open>
  C9: let the heap \<open>h\<close> hold the snapshot \<open>fs\<close> at the references \<open>rs\<close>, and let the stack
  allow more nested calls than the tree is deep.  Then \<^verbatim>\<open>generateSchema\<close> returns, and so
  does a second call after it.  Both results are, in the final heap, the same JSON value with
  the same key order, namely the value that the projection assigns to the snapshot.  Neither
  call writes to a cell that existed when it started (the heap before is a prefix of the heap
  after), and the final heap still holds the snapshot at \<open>rs\<close>.
\<close>

theorem generateSchema_pure:
  assumes "fields_at h rs fs" and "forest_height fs < depth"
  shows "\<exists>s1 h1 s2 h2.
           generateSchema_h depth h rs = Some (s1, h1)
         \<and> generateSchema_h depth h1 rs = Some (s2, h2)
         \<and> json_at h2 0 (VRef s1) (generateSchema fs)
         \<and> json_at h2 0 (VRef s2) (generateSchema fs)
         \<and> take (length h) h1 = h
         \<and> take (length h1) h2 = h1
         \<and> fields_at h2 rs fs"
proof -
  from generateSchema_h_refines [OF assms] obtain h1
    where g1: "generateSchema_h depth h rs = Some (length h, h1)"
      and e1: "take (length h) h1 = h"
      and j1: "json_at h1 (length h) (VRef (length h)) (generateSchema fs)"
    by blast
  have f1: "fields_at h1 rs fs"
    using field_at_extend(2) [OF assms(1) e1] .
  from generateSchema_h_refines [OF f1 assms(2)] obtain h2
    where g2: "generateSchema_h depth h1 rs = Some (length h1, h2)"
      and e2: "take (length h1) h2 = h1"
      and j2: "json_at h2 (length h1) (VRef (length h1)) (generateSchema fs)"
    by blast
  have "json_at h2 (length h) (VRef (length h)) (generateSchema fs)"
    using json_at_agree(1) [OF j1 take_prefix_length [OF e2]] take_prefix_nth [OF e2] by blast
  then have r1: "json_at h2 0 (VRef (length h)) (generateSchema fs)"
    by (rule json_at_weaken(1)) simp
  have r2: "json_at h2 0 (VRef (length h1)) (generateSchema fs)"
    using j2 by (rule json_at_weaken(1)) simp
  have "fields_at h2 rs fs"
    using field_at_extend(2) [OF f1 e2] .
  with g1 g2 r1 r2 e1 e2 show ?thesis by blast
qed

theorem generateSchema_pure_witness:
  "fields_at heap_A_X_B [0, 2] tree_A_X_B
   \<and> forest_height tree_A_X_B < 3
   \<and> (\<exists>s1 h1 s2 h2.
           generateSchema_h 3 heap_A_X_B [0, 2] = Some (s1, h1)
         \<and> generateSchema_h 3 h1 [0, 2] = Some (s2, h2)
         \<and> json_at h2 0 (VRef s1)
             (JObject [(''A'', JObject [(''X'', JString ''String (default)'')]),
                       (''B'', JString ''String (default)'')])
         \<and> json_at h2 0 (VRef s2)
             (JObject [(''A'', JObject [(''X'', JString ''String (default)'')]),
                       (''B'', JString ''String (default)'')])
         \<and> take 3 h1 = heap_A_X_B
         \<and> fields_at h2 [0, 2] tree_A_X_B)"
proof -
  have f: "fields_at heap_A_X_B [0, 2] tree_A_X_B"
    by (simp add: heap_A_X_B_def tree_A_X_B_def deref_def)
  have d: "forest_height tree_A_X_B < 3"
    by (simp add: tree_A_X_B_def)
  have v: "generateSchema tree_A_X_B
           = JObject [(''A'', JObject [(''X'', JString ''String (default)'')]),
                      (''B'', JString ''String (default)'')]"
    by (simp add: tree_A_X_B_def js_assign_def array_index_def is_digit_def)
  have l: "length heap_A_X_B = 3"
    by (simp add: heap_A_X_B_def)
  from generateSchema_pure [OF f d] f d show ?thesis
    unfolding v l by blast
qed

text \<open>The two calls of the theorem, run on the heap of \<^verbatim>\<open>A\<close>, \<^verbatim>\<open>X\<close>, \<^verbatim>\<open>B\<close>: the first one.\<close>

lemma generateSchema_h_example:
  "generateSchema_h (Suc (Suc (Suc 0))) heap_A_X_B [0, 2]
   = Some (3, heap_A_X_B @ [SchemaObj [(''A'', VRef 4), (''B'', VString ''String (default)'')],
                             SchemaObj [(''X'', VString ''String (default)'')]])"
  by (simp add: heap_A_X_B_def deref_def assign_h_def js_assign_def array_index_def is_digit_def)

subsection \<open>A field of an unknown type\<close>

text \<open>
  C7: a field whose type is none of \<^verbatim>\<open>"string"\<close>, \<^verbatim>\<open>"number"\<close>, \<^verbatim>\<open>"nested"\<close>
  contributes nothing, whatever its name, its children and its place: the projection is that
  of the sequence without the field.  And the call does not fail on it: on a heap that holds
  the sequence, with a stack that allows more nested calls than the tree is deep,
  \<^verbatim>\<open>generateSchema\<close> returns an object, and the object is the projection of the sequence
  without the field.
\<close>

theorem unknown_type_skipped:
  assumes "t \<noteq> ''string''" and "t \<noteq> ''number''" and "t \<noteq> ''nested''"
  shows "generateSchema (pre @ Field i k t cs # post) = generateSchema (pre @ post)
       \<and> (fields_at h rs (pre @ Field i k t cs # post)
            \<and> forest_height (pre @ Field i k t cs # post) < depth
          \<longrightarrow> (\<exists>s h'. generateSchema_h depth h rs = Some (s, h')
                 \<and> json_at h' 0 (VRef s) (generateSchema (pre @ post))))"
proof -
  have skip: "generateSchema (pre @ Field i k t cs # post) = generateSchema (pre @ post)"
    using assms by (simp add: forEach_field_skip)
  have "\<exists>s h'. generateSchema_h depth h rs = Some (s, h')
          \<and> json_at h' 0 (VRef s) (generateSchema (pre @ post))"
    if f: "fields_at h rs (pre @ Field i k t cs # post)"
      and d: "forest_height (pre @ Field i k t cs # post) < depth"
  proof -
    from generateSchema_h_refines [OF f d] obtain h'
      where g: "generateSchema_h depth h rs = Some (length h, h')"
        and j: "json_at h' (length h) (VRef (length h))
                  (generateSchema (pre @ Field i k t cs # post))"
      by blast
    have "json_at h' 0 (VRef (length h)) (generateSchema (pre @ Field i k t cs # post))"
      using j by (rule json_at_weaken(1)) simp
    with g show ?thesis
      unfolding skip by blast
  qed
  with skip show ?thesis by blast
qed

theorem unknown_type_skipped_witness:
  "''boolean'' \<noteq> ''string'' \<and> ''boolean'' \<noteq> ''number'' \<and> ''boolean'' \<noteq> ''nested''
   \<and> fields_at heap_a_flag_b [0, 2, 4]
        ([Field 1 ''a'' ''nested'' [Field 2 ''n'' ''number'' []]]
         @ Field 3 ''flag'' ''boolean'' [Field 4 ''x'' ''string'' []]
         # [Field 5 ''b'' ''string'' []])
   \<and> forest_height
        ([Field 1 ''a'' ''nested'' [Field 2 ''n'' ''number'' []]]
         @ Field 3 ''flag'' ''boolean'' [Field 4 ''x'' ''string'' []]
         # [Field 5 ''b'' ''string'' []]) < 3
   \<and> generateSchema
        ([Field 1 ''a'' ''nested'' [Field 2 ''n'' ''number'' []]]
         @ Field 3 ''flag'' ''boolean'' [Field 4 ''x'' ''string'' []]
         # [Field 5 ''b'' ''string'' []])
       = JObject [(''a'', JObject [(''n'', JNumber 0)]), (''b'', JString ''String (default)'')]
   \<and> (\<exists>s h'. generateSchema_h 3 heap_a_flag_b [0, 2, 4] = Some (s, h')
          \<and> json_at h' 0 (VRef s)
               (JObject [(''a'', JObject [(''n'', JNumber 0)]),
                         (''b'', JString ''String (default)'')]))"
proof -
  define pre where "pre = [Field 1 ''a'' ''nested'' [Field 2 ''n'' ''number'' []]]"
  define post where "post = [Field 5 ''b'' ''string'' []]"
  define cs where "cs = [Field 4 ''x'' ''string'' []]"
  have t: "''boolean'' \<noteq> ''string''" "''boolean'' \<noteq> ''number''" "''boolean'' \<noteq> ''nested''"
    by simp_all
  have f: "fields_at heap_a_flag_b [0, 2, 4] (pre @ Field 3 ''flag'' ''boolean'' cs # post)"
    by (simp add: pre_def post_def cs_def heap_a_flag_b_def deref_def)
  have d: "forest_height (pre @ Field 3 ''flag'' ''boolean'' cs # post) < 3"
    by (simp add: pre_def post_def cs_def)
  have v: "generateSchema (pre @ post)
           = JObject [(''a'', JObject [(''n'', JNumber 0)]), (''b'', JString ''String (default)'')]"
    by (simp add: pre_def post_def js_assign_def array_index_def is_digit_def)
  note u = unknown_type_skipped [OF t, of pre 3 "''flag''" cs post heap_a_flag_b "[0, 2, 4]" 3]
  have "generateSchema (pre @ Field 3 ''flag'' ''boolean'' cs # post)
        = JObject [(''a'', JObject [(''n'', JNumber 0)]), (''b'', JString ''String (default)'')]"
    using u v by simp
  moreover have "\<exists>s h'. generateSchema_h 3 heap_a_flag_b [0, 2, 4] = Some (s, h')
          \<and> json_at h' 0 (VRef s)
               (JObject [(''a'', JObject [(''n'', JNumber 0)]),
                         (''b'', JString ''String (default)'')])"
    using u f d unfolding v by blast
  ultimately show ?thesis
    using t f d unfolding pre_def post_def cs_def by blast
qed

section \<open>The tree operations below the root level\<close>

text \<open>
  \<^verbatim>\<open>updateField\<close> and \<^verbatim>\<open>removeField\<close> look at the root sequence only.  A node below
  the root level is replaced or removed by the rows above it: each row rebuilds its field
  around the new child and hands it to the row above, and the root row hands it to
  \<^verbatim>\<open>updateField\<close>.
\<close>

lemma distinct_root_ids: "distinct (forest_ids fields) \<Longrightarrow> distinct (map fid fields)"
proof (induction fields)
  case Nil
  show ?case by simp
next
  case (Cons f fs)
  then have "distinct (forest_ids fs)" and "fid f \<notin> set (forest_ids fs)"
    using fid_in_nodes [of f] by (auto simp: forest_ids_Cons)
  with Cons.IH root_ids_in_forest_ids [of fs] show ?case by auto
qed

lemma ids_of_node: "map fid (nodes f) = fid f # forest_ids (children f)"
  by (cases f) (simp add: forest_ids_def forest_nodes_def map_concat)

lemma distinct_child:
  assumes "distinct (forest_ids cs)" and "j < length cs"
  shows "distinct (map fid (nodes (cs ! j)))"
proof -
  have "cs = take j cs @ cs ! j # drop (Suc j) cs"
    using assms(2) by (simp add: id_take_nth_drop)
  then have "forest_ids cs
      = forest_ids (take j cs) @ map fid (nodes (cs ! j)) @ forest_ids (drop (Suc j) cs)"
    by (metis forest_ids_Cons forest_ids_append)
  with assms(1) show ?thesis by simp
qed

lemma map_replace_nth:
  assumes "distinct (map fid xs)" and "j < length xs" and "fid u = fid (xs ! j)"
  shows "map (\<lambda>c. if fid c = fid u then u else c) xs = xs[j := u]"
proof (rule nth_equalityI)
  show "length (map (\<lambda>c. if fid c = fid u then u else c) xs) = length (xs[j := u])"
    by simp
next
  fix i
  assume "i < length (map (\<lambda>c. if fid c = fid u then u else c) xs)"
  then have i: "i < length xs" by simp
  have "fid (xs ! i) = fid (xs ! j) \<longleftrightarrow> i = j"
    using assms(1,2) i by (metis length_map nth_eq_iff_index_eq nth_map)
  then show "map (\<lambda>c. if fid c = fid u then u else c) xs ! i = xs[j := u] ! i"
    using i assms(2,3) by (simp add: nth_list_update)
qed

lemma filter_remove_nth:
  assumes "distinct (map fid xs)" and "j < length xs"
  shows "filter (\<lambda>c. fid c \<noteq> fid (xs ! j)) xs = take j xs @ drop (Suc j) xs"
proof -
  have s: "xs = take j xs @ xs ! j # drop (Suc j) xs"
    using assms(2) by (simp add: id_take_nth_drop)
  have "distinct (map fid (take j xs) @ fid (xs ! j) # map fid (drop (Suc j) xs))"
    using assms(1) by (metis s list.simps(9) map_append)
  then have "fid (xs ! j) \<notin> set (map fid (take j xs))"
    and "fid (xs ! j) \<notin> set (map fid (drop (Suc j) xs))"
    by auto
  then have "\<forall>c \<in> set (take j xs). fid c \<noteq> fid (xs ! j)"
    and "\<forall>c \<in> set (drop (Suc j) xs). fid c \<noteq> fid (xs ! j)"
    by (simp_all add: image_iff) metis+
  then have "filter (\<lambda>c. fid c \<noteq> fid (xs ! j)) (take j xs @ xs ! j # drop (Suc j) xs)
             = take j xs @ drop (Suc j) xs"
    by simp
  with s show ?thesis by simp
qed

lemma fid_replace_at:
  "fid u = fid (node_at f path) \<Longrightarrow> fid (replace_at f path u) = fid f"
  by (cases path) simp_all

text \<open>
  A row at any depth below a field \<open>f\<close> whose ids are pairwise distinct: its \<^verbatim>\<open>onUpdate\<close>,
  called with a field that has the id of the row's node, hands to the \<^verbatim>\<open>onUpdate\<close> of the
  row of \<open>f\<close> the field \<open>f\<close> with the node replaced, at its place.
\<close>

lemma row_onUpdate_replaces:
  "row_onUpdate onUpdate f path = Some g \<Longrightarrow> distinct (map fid (nodes f)) \<Longrightarrow>
   fid u = fid (node_at f path) \<Longrightarrow> g u = onUpdate (replace_at f path u)"
proof (induction path arbitrary: onUpdate f)
  case Nil
  then show ?case by simp
next
  case (Cons j path)
  from Cons.prems(1) have j: "j < length (children f)"
    and g: "row_onUpdate (handleChildUpdate f onUpdate) (children f ! j) path = Some g"
    by (simp_all split: if_splits)
  have d: "distinct (forest_ids (children f))"
    using Cons.prems(2) by (simp add: ids_of_node)
  define u' where "u' = replace_at (children f ! j) path u"
  have call: "g u = handleChildUpdate f onUpdate u'"
    unfolding u'_def using Cons.IH [OF g distinct_child [OF d j]] Cons.prems(3) by simp
  have "fid u' = fid (children f ! j)"
    unfolding u'_def using Cons.prems(3) by (simp add: fid_replace_at)
  then have "map (\<lambda>c. if fid c = fid u' then u' else c) (children f) = (children f)[j := u']"
    by (rule map_replace_nth [OF distinct_root_ids [OF d] j])
  then have "handleChildUpdate f onUpdate u'
             = onUpdate (Field (fid f) (keyName f) (ftype f) ((children f)[j := u']))"
    by (simp add: handleChildUpdate_def)
  with call show ?case
    by (simp add: u'_def)
qed

lemma distinct_node_at:
  "row_onUpdate onUpdate f path = Some g \<Longrightarrow> distinct (map fid (nodes f)) \<Longrightarrow>
   distinct (map fid (nodes (node_at f path)))"
proof (induction path arbitrary: onUpdate f)
  case Nil
  then show ?case by simp
next
  case (Cons j path)
  from Cons.prems(1) have j: "j < length (children f)"
    and g: "row_onUpdate (handleChildUpdate f onUpdate) (children f ! j) path = Some g"
    by (simp_all split: if_splits)
  have "distinct (forest_ids (children f))"
    using Cons.prems(2) by (simp add: ids_of_node)
  from Cons.IH [OF g distinct_child [OF this j]] show ?case by simp
qed

text \<open>
  From the root: in a tree whose ids are pairwise distinct, the row at the path \<open>path\<close> below
  the root at position \<open>i\<close> replaces its node in the tree, and changes nothing else.
\<close>

lemma deep_update:
  assumes "distinct (forest_ids fields)" and "i < length fields"
    and "row_onUpdate (updateField fields) (fields ! i) path = Some g"
    and "fid u = fid (node_at (fields ! i) path)"
  shows "g u = fields[i := replace_at (fields ! i) path u]"
proof -
  have "g u = updateField fields (replace_at (fields ! i) path u)"
    using row_onUpdate_replaces [OF assms(3) distinct_child [OF assms(1,2)] assms(4)] .
  moreover have "fid (replace_at (fields ! i) path u) = fid (fields ! i)"
    using assms(4) by (rule fid_replace_at)
  ultimately show ?thesis
    using map_replace_nth [OF distinct_root_ids [OF assms(1)] assms(2)]
    by (simp add: updateField_def)
qed

text \<open>
  The remove button of the child at position \<open>j\<close> of the node at \<open>path\<close> calls the
  \<^verbatim>\<open>handleChildRemove\<close> of the row of that node (line 100): the node loses this child, with
  the subtree of the child, and the rest of the tree is as it was.
\<close>

lemma deep_remove:
  assumes "distinct (forest_ids fields)" and "i < length fields"
    and "row_onUpdate (updateField fields) (fields ! i) path = Some g"
    and "p = node_at (fields ! i) path" and "j < length (children p)"
  shows "handleChildRemove p g (fid (children p ! j))
         = fields[i := replace_at (fields ! i) path
             (Field (fid p) (keyName p) (ftype p)
                (take j (children p) @ drop (Suc j) (children p)))]"
proof -
  define p' where "p' = Field (fid p) (keyName p) (ftype p)
      (take j (children p) @ drop (Suc j) (children p))"
  have "distinct (map fid (nodes p))"
    unfolding assms(4) using distinct_node_at [OF assms(3) distinct_child [OF assms(1,2)]] .
  then have "distinct (map fid (children p))"
    by (simp add: ids_of_node distinct_root_ids)
  then have "filter (\<lambda>c. fid c \<noteq> fid (children p ! j)) (children p)
             = take j (children p) @ drop (Suc j) (children p)"
    using assms(5) by (rule filter_remove_nth)
  then have "handleChildRemove p g (fid (children p ! j)) = g p'"
    by (simp add: handleChildRemove_def p'_def)
  moreover have "fid p' = fid (node_at (fields ! i) path)"
    by (simp add: p'_def assms(4))
  ultimately show ?thesis
    using deep_update [OF assms(1,2,3), of p'] by (simp add: p'_def)
qed

text \<open>
  The initial tree, the row of \<^verbatim>\<open>street\<close> (id 5, the first child of the third child of
  the first root): renaming it rebuilds \<^verbatim>\<open>address\<close> and \<^verbatim>\<open>user\<close> around it.
\<close>

lemma deep_update_example:
  "\<exists>g. row_onUpdate (updateField initialFields) (initialFields ! 0) [2, 0] = Some g
      \<and> g (Field 5 ''road'' ''string'' [])
          = [Field 1 ''user'' ''nested''
               [Field 2 ''name'' ''string'' [],
                Field 3 ''age'' ''number'' [],
                Field 4 ''address'' ''nested''
                  [Field 5 ''road'' ''string'' [],
                   Field 6 ''zip'' ''number'' []]],
             Field 7 ''productId'' ''string'' []]"
  by (simp add: initialFields_def handleChildUpdate_def updateField_def)

section \<open>A new field and the projection\<close>

text \<open>
  A field fresh from \<^verbatim>\<open>createDefaultField\<close> has no name, so the projection does not show
  it: neither after \<^verbatim>\<open>addField\<close> at the root nor after \<^verbatim>\<open>addChildField\<close> in a row.
\<close>

lemma addField_projects_nothing:
  "generateSchema (addField fields now rnd) = generateSchema fields"
  using forEach_field_skip [of "''''" "''string''" fields "double_round (of_int now + rnd)" "[]" "[]" "[]"]
  by (simp add: addField_def createDefaultField_def)

lemma addChildField_projects_nothing:
  "addChildField f (\<lambda>f'. generateSchema (children f')) now rnd = generateSchema (children f)"
  using forEach_field_skip [of "''''" "''string''" "children f" "double_round (of_int now + rnd)" "[]" "[]" "[]"]
  by (simp add: addChildField_def createDefaultField_def)

end
